theory Spec2Isabelle
  imports Complex_Main "HOL-Library.Log_Nat" "HOL-Library.Sublist" "HOL-Library.AList" "HOL-Library.Char_ord" "HOL-Library.List_Lexorder"
    "HOL-Library.Product_Lexorder"
begin

section \<open>Python values\<close>

text \<open>The exceptions the modelled code can raise.\<close>

datatype py_error = OverflowError | ValueError | KeyError | TypeError

text \<open>
  A Python \<open>float\<close> is an IEEE double: \<open>Finite m e\<close> stands for \<open>m * 2 ^ e\<close>. Every
  arithmetic result is rounded to 53 significant bits, ties to even (\<open>round53\<close>); a rounded
  result of magnitude \<open>2 ^ 1024\<close> or more, that is one whose bit length and exponent add up
  to more than 1024, is an infinity (\<open>to_double\<close>). The exponent has no lower bound in the
  model: the product of a positive integer and a positive double is not smaller than the
  double, so it does not underflow.
\<close>

datatype pyfloat = Finite int int | PosInf | NegInf | NaN

definition float_value :: "int \<Rightarrow> int \<Rightarrow> rat" where
  "float_value m e = of_int m * 2 powi e"

definition round53 :: "int \<Rightarrow> int \<Rightarrow> int \<times> int" where
  "round53 m e =
     (let a = \<bar>m\<bar>; b = bitlen a in
      if b \<le> 53 then (m, e)
      else
        (let sh = nat (b - 53); q = a div 2 ^ sh; r = a mod 2 ^ sh; half = 2 ^ (sh - 1);
             q' = (if half < r \<or> (r = half \<and> odd q) then q + 1 else q)
         in (sgn m * q', e + int sh)))"

definition to_double :: "int \<Rightarrow> int \<Rightarrow> pyfloat" where
  "to_double m e =
     (let (p, pe) = round53 m e in
      if 1024 < bitlen \<bar>p\<bar> + pe then (if 0 < p then PosInf else NegInf)
      else Finite p pe)"

text \<open>
  \<open>n * f\<close> for an \<open>int\<close> and a \<open>float\<close>: the integer is converted to a double first (a
  list length is far below the integers on which the conversion raises).
\<close>

definition mul_int_float :: "int \<Rightarrow> pyfloat \<Rightarrow> pyfloat" where
  "mul_int_float n f =
     (case f of
        NaN \<Rightarrow> NaN
      | PosInf \<Rightarrow> (if 0 < n then PosInf else if n < 0 then NegInf else NaN)
      | NegInf \<Rightarrow> (if 0 < n then NegInf else if n < 0 then PosInf else NaN)
      | Finite m e \<Rightarrow> (let (mn, en) = round53 n 0 in to_double (mn * m) (en + e)))"

text \<open>\<open>math.ceil\<close> returns an \<open>int\<close>; it raises on an infinity and on a NaN.\<close>

definition math_ceil :: "pyfloat \<Rightarrow> py_error + int" where
  "math_ceil x =
     (case x of
        Finite m e \<Rightarrow> Inr (if 0 \<le> e then m * 2 ^ nat e else - ((- m) div 2 ^ nat (- e)))
      | NaN \<Rightarrow> Inl ValueError
      | _ \<Rightarrow> Inl OverflowError)"

text \<open>The comparison \<open>f > 0\<close>.\<close>

definition float_gt_zero :: "pyfloat \<Rightarrow> bool" where
  "float_gt_zero f = (case f of Finite m e \<Rightarrow> 0 < m | PosInf \<Rightarrow> True | _ \<Rightarrow> False)"

section \<open>cli.py: the sample size of the cache validation\<close>

text \<open>
  \<open>k = max(int(math.ceil(len(candidates) * args.validate_cache_sample)), args.validate_cache_min)\<close>
  followed by \<open>k = min(k, len(candidates))\<close>.
\<close>

definition sample_size :: "nat \<Rightarrow> pyfloat \<Rightarrow> int \<Rightarrow> py_error + int" where
  "sample_size n f m =
     (case math_ceil (mul_int_float (int n) f) of
        Inl err \<Rightarrow> Inl err
      | Inr c \<Rightarrow> Inr (min (max c m) (int n)))"

text \<open>The double that the literal \<open>0.05\<close> denotes.\<close>

definition double_0_05 :: pyfloat where
  "double_0_05 = Finite 7205759403792794 (- 57)"

section \<open>Python strings\<close>

text \<open>
  Tickers are ASCII strings. \<open>str.strip()\<close> removes leading and trailing whitespace
  (for ASCII: space, tab, newline, vertical tab, form feed, carriage return and the four
  separators 0x1C-0x1F); \<open>str.upper()\<close> maps \<open>a\<close>-\<open>z\<close> to \<open>A\<close>-\<open>Z\<close>;
  \<open>str.replace\<close> with one-character arguments rewrites every occurrence.
\<close>

definition is_space :: "char \<Rightarrow> bool" where
  "is_space c = (c \<in> set [CHR '' '', CHR 0x09, CHR 0x0A, CHR 0x0B, CHR 0x0C, CHR 0x0D,
                            CHR 0x1C, CHR 0x1D, CHR 0x1E, CHR 0x1F])"

definition py_strip :: "string \<Rightarrow> string" where
  "py_strip s = rev (dropWhile is_space (rev (dropWhile is_space s)))"

definition upper_char :: "char \<Rightarrow> char" where
  "upper_char c =
     (if CHR ''a'' \<le> c \<and> c \<le> CHR ''z'' then char_of (of_char c - (32::nat)) else c)"

definition py_upper :: "string \<Rightarrow> string" where
  "py_upper s = map upper_char s"

definition py_replace :: "char \<Rightarrow> char \<Rightarrow> string \<Rightarrow> string" where
  "py_replace old new s = map (\<lambda>c. if c = old then new else c) s"

section \<open>normalize.py\<close>

text \<open>\<open>s.split('^', 1)\<close> for a string that contains a caret: the part before the first caret
  and the part after it.\<close>

definition split_caret :: "string \<Rightarrow> string \<times> string" where
  "split_caret s =
     (takeWhile (\<lambda>c. c \<noteq> CHR ''^'') s, drop 1 (dropWhile (\<lambda>c. c \<noteq> CHR ''^'') s))"

definition slash_suffixes :: "(string \<times> string) list" where
  "slash_suffixes =
     [(''/WS'', ''-WS''), (''/W'', ''-W''), (''/WT'', ''-WT''), (''/RT'', ''-RT''), (''/U'', ''-U'')]"

definition to_yahoo_symbol :: "string \<Rightarrow> string" where
  "to_yahoo_symbol symbol =
    (let s = py_upper (py_strip symbol) in
     if CHR ''^'' \<in> set s then
       (let (base, suf0) = split_caret s; suf = py_strip suf0 in
        if suf \<noteq> [] then base @ ''-P'' @ suf else base)
     else if list_ex (\<lambda>(suf, rep). suffix suf s) slash_suffixes then
       py_replace (CHR ''.'') (CHR ''-'') (py_replace (CHR ''/'') (CHR ''-'') s)
     else py_replace (CHR ''/'') (CHR ''-'') (py_replace (CHR ''.'') (CHR ''-'') s))"

text \<open>The three rules of the notation adapter as the specification words them, for comparison
  with \<open>to_yahoo_symbol\<close>.\<close>

definition replace_dot_slash :: "string \<Rightarrow> string" where
  "replace_dot_slash s = map (\<lambda>c. if c = CHR ''.'' \<or> c = CHR ''/'' then CHR ''-'' else c) s"

definition vendor_form_rules :: "string \<Rightarrow> string" where
  "vendor_form_rules ticker =
    (if CHR ''^'' \<in> set ticker then
       (let base = takeWhile (\<lambda>c. c \<noteq> CHR ''^'') ticker;
            suf = py_upper (py_strip (drop 1 (dropWhile (\<lambda>c. c \<noteq> CHR ''^'') ticker)))
        in if suf = [] then base else base @ ''-P'' @ suf)
     else if suffix ''/WS'' ticker \<or> suffix ''/W'' ticker \<or> suffix ''/WT'' ticker
             \<or> suffix ''/RT'' ticker \<or> suffix ''/U'' ticker
       then replace_dot_slash ticker
     else replace_dot_slash ticker)"

section \<open>Dates, tables and CSV files\<close>

text \<open>
  A calendar date is year, month, day; the order is the lexicographic one, which is the
  chronological order of \<open>datetime.date\<close>. A table of earliest dates is a list of rows
  (symbol, date), in row order.
\<close>

type_synonym date = "nat \<times> nat \<times> nat"

type_synonym date_table = "(string \<times> date) list"

text \<open>
  A CSV file holds text. Of a cache file, the model keeps whether the header has the columns
  \<open>Symbol\<close> and \<open>EarliestVendorDate\<close>, and the two cells of every row: the symbol text, and
  for the date an empty cell, a text that \<open>pd.to_datetime\<close> parses to a date, or a text on which
  it fails. \<open>Unreadable\<close> is a file on which \<open>pd.read_csv\<close> raises. \<open>Report\<close> is a mismatch
  report with the columns \<open>Symbol\<close>, \<open>FreshDate\<close>, \<open>CachedDate\<close>.
\<close>

datatype date_text = NoDate | DateStr date | BadDate

type_synonym csv_rows = "(string \<times> date_text) list"

datatype csv_file = Unreadable | Csv bool bool csv_rows | Report "(string \<times> date \<times> date) list"

type_synonym path = string

type_synonym fs = "path \<rightharpoonup> csv_file"

text \<open>
  \<open>pd.read_csv\<close> reads a symbol cell as a string, or as NaN when the text is one of pandas'
  default missing-value markers. \<open>str\<close> of that NaN is \<open>nan\<close>.
\<close>

datatype sym_cell = SymNaN | SymText string

definition na_values :: "string list" where
  "na_values = [[], ''#N/A'', ''#N/A N/A'', ''#NA'', ''-1.#IND'', ''-1.#QNAN'', ''-NaN'', ''-nan'',
     ''1.#IND'', ''1.#QNAN'', ''<NA>'', ''N/A'', ''NA'', ''NULL'', ''NaN'', ''None'', ''n/a'',
     ''nan'', ''null'']"

definition parse_symbol :: "string \<Rightarrow> sym_cell" where
  "parse_symbol s = (if s \<in> set na_values then SymNaN else SymText s)"

definition read_csv :: "csv_file \<Rightarrow> (bool \<times> bool \<times> (sym_cell \<times> date_text) list) option" where
  "read_csv f =
     (case f of
        Unreadable \<Rightarrow> None
      | Csv has_symbol has_date rows \<Rightarrow>
          Some (has_symbol, has_date, map (\<lambda>(s, d). (parse_symbol s, d)) rows)
      | Report rows \<Rightarrow> Some (True, False, map (\<lambda>(s, f, c). (parse_symbol s, NoDate)) rows))"

definition to_csv :: "date_table \<Rightarrow> csv_file" where
  "to_csv table = Csv True True (map (\<lambda>(s, d). (s, DateStr d)) table)"

definition str_of_cell :: "sym_cell \<Rightarrow> string" where
  "str_of_cell c = (case c of SymNaN \<Rightarrow> ''nan'' | SymText s \<Rightarrow> s)"

section \<open>cli.py: merging cache tables\<close>










definition normalise_row :: "sym_cell \<times> date_text \<Rightarrow> string \<times> date option" where
  "normalise_row r =
     (py_upper (str_of_cell (fst r)), case snd r of DateStr d \<Rightarrow> Some d | _ \<Rightarrow> None)"


section \<open>vendor_yahoo.py: the vendor and the effects of a run\<close>

text \<open>
  The entries of the input iterable: strings, and representatives of what is not a string.
  The filter \<open>t and isinstance(t, str)\<close> takes the truth value of an entry first: \<open>PyNA\<close>
  stands for an object whose truth test raises, such as \<open>pd.NA\<close> (a \<open>TypeError\<close>). An
  exception ends the list comprehension.
\<close>

datatype pyobj = PyStr string | PyNone | PyInt int | PyNA

fun clean_entry :: "pyobj \<Rightarrow> py_error + string option" where
  "clean_entry (PyStr s) = Inr (if s \<noteq> [] then Some (py_upper (py_strip s)) else None)"
| "clean_entry PyNA = Inl TypeError"
| "clean_entry _ = Inr None"

fun clean_entries :: "pyobj list \<Rightarrow> py_error + string list" where
  "clean_entries [] = Inr []"
| "clean_entries (t # ts) =
     (case clean_entry t of
        Inl err \<Rightarrow> Inl err
      | Inr r \<Rightarrow>
          (case clean_entries ts of
             Inl err \<Rightarrow> Inl err
           | Inr rs \<Rightarrow> Inr (case r of Some s \<Rightarrow> s # rs | None \<Rightarrow> rs)))"

text \<open>\<open>list(dict.fromkeys(xs))\<close>: the first occurrence of every element, in order.\<close>

definition dict_fromkeys :: "'a list \<Rightarrow> 'a list" where
  "dict_fromkeys xs = fold (\<lambda>x acc. if x \<in> set acc then acc else acc @ [x]) xs []"

definition normalize_tickers :: "pyobj list \<Rightarrow> py_error + string list" where
  "normalize_tickers tickers =
     (case clean_entries tickers of Inl err \<Rightarrow> Inl err | Inr ts \<Rightarrow> Inr (dict_fromkeys ts))"

text \<open>
  The close column of a downloaded frame: rows in ascending time order, the price missing or
  not. \<open>c = ...["Close"].dropna()\<close> followed by \<open>c.index[0]\<close> when \<open>len(c) > 0\<close>.
\<close>

type_synonym close_series = "(date \<times> rat option) list"

definition first_valid_date :: "close_series \<Rightarrow> date option" where
  "first_valid_date c = (case filter (\<lambda>r. snd r \<noteq> None) c of [] \<Rightarrow> None | r # _ \<Rightarrow> Some (fst r))"

text \<open>
  \<open>yf.download\<close> raises an exception with a message, or returns a data frame. For a list of
  symbols the frame has either one column group per vendor symbol (a \<open>MultiIndex\<close>; a group
  may be absent) or plain columns (with or without \<open>Close\<close>); for one symbol the model
  keeps the \<open>Close\<close> column when there is one. The vendor may answer the same request
  differently each time, so its answer depends on the number of downloads made before.
\<close>

datatype batch_frame = MultiFrame "(string \<times> close_series) list" | FlatFrame "close_series option"

datatype 'a outcome = Raises string | Returns 'a

record vendor =
  download_batch :: "nat \<Rightarrow> string list \<Rightarrow> batch_frame outcome"
  download_single :: "nat \<Rightarrow> string \<Rightarrow> close_series option outcome"

definition is_rate_limit :: "string \<Rightarrow> bool" where
  "is_rate_limit msg =
     (sublist ''Rate limited'' msg \<or> sublist ''Too Many Requests'' msg \<or> sublist ''HTTP Error 429'' msg)"

text \<open>
  The state of a run: the number of downloads made, the arguments of \<open>time.sleep\<close> in seconds
  in the order of the calls that slept, and the dictionary \<open>results\<close> in insertion order. An
  exception leaves a function with the state reached: the left summand of a result.
\<close>

record rstate =
  calls :: nat
  sleeps :: "rat list"
  results :: date_table

text \<open>
  \<open>time.sleep\<close> (CPython, 64-bit time) multiplies the seconds by \<open>1e9\<close> in double precision
  and raises \<open>OverflowError\<close> when the rounded product is not below \<open>2 ^ 63\<close> nanoseconds,
  which is from \<open>2 ^ 63 - 512 = 9223372036854775296\<close> nanoseconds on, a little above
  \<open>9.2e9\<close> seconds. A duration closer to that limit than the uptime of the machine may be
  refused by the operating system as well (an \<open>OSError\<close>); the model accepts it. The
  statements on waits are made for durations up to \<open>max_wait\<close>, nine billion seconds,
  which is more than seven years below the limit.
\<close>

definition time_sleep :: "rat \<Rightarrow> rstate \<Rightarrow> (py_error \<times> rstate) + rstate" where
  "time_sleep seconds st =
     (if 9223372036854775296 \<le> seconds * 1000000000 then Inl (OverflowError, st)
      else Inr (st\<lparr>sleeps := sleeps st @ [seconds]\<rparr>))"

definition max_wait :: rat where
  "max_wait = 9000000000"

text \<open>utils.py: \<open>throttle\<close> sleeps only for a positive number of seconds.\<close>

definition throttle :: "rat \<Rightarrow> rstate \<Rightarrow> (py_error \<times> rstate) + rstate" where
  "throttle seconds st = (if seconds \<noteq> 0 \<and> 0 < seconds then time_sleep seconds st else Inr st)"

section \<open>vendor_yahoo.py: earliest_vendor_dates\<close>

text \<open>
  \<open>wait = pause * (2 ** attempt)\<close> followed by \<open>throttle(wait)\<close>, in the handler of a rate
  limit. The pause is a finite double and \<open>2 ** attempt\<close> an \<open>int\<close>: the product converts
  the \<open>int\<close> to a double, which raises \<open>OverflowError\<close> from \<open>2 ** 1024\<close> on. Below, the
  product of a double and a power of two is exact unless it overflows to an infinity; an
  infinity and the exact product are both refused by \<open>time.sleep\<close> when positive, and both
  skipped by \<open>throttle\<close> when negative, so that the durations are rational numbers here.
\<close>

definition backoff :: "rat \<Rightarrow> nat \<Rightarrow> rstate \<Rightarrow> (py_error \<times> rstate) + rstate" where
  "backoff pause attempt st =
     (if 1024 \<le> attempt then Inl (OverflowError, st) else throttle (pause * 2 ^ attempt) st)"

text \<open>
  The batch download with retries on a rate limit; \<open>None\<close> is \<open>df is None\<close>. The backoff runs
  inside the exception handler, so that what it raises leaves the resolver.
\<close>

function batch_fetch ::
  "vendor \<Rightarrow> string list \<Rightarrow> rat \<Rightarrow> int \<Rightarrow> nat \<Rightarrow> rstate
   \<Rightarrow> (py_error \<times> rstate) + (batch_frame option \<times> rstate)" where
  "batch_fetch V ybatch pause max_retries attempt st =
     (if int attempt \<le> max_retries then
        (case download_batch V (calls st) ybatch of
           Returns df \<Rightarrow> Inr (Some df, st\<lparr>calls := calls st + 1\<rparr>)
         | Raises msg \<Rightarrow>
             if is_rate_limit msg
             then (case backoff pause attempt (st\<lparr>calls := calls st + 1\<rparr>) of
                     Inl err \<Rightarrow> Inl err
                   | Inr st' \<Rightarrow> batch_fetch V ybatch pause max_retries (attempt + 1) st')
             else Inr (None, st\<lparr>calls := calls st + 1\<rparr>))
      else Inr (None, st))"
  by pat_completeness auto
termination
  by (relation "measure (\<lambda>(V, ybatch, pause, max_retries, attempt, st). nat (max_retries + 1 - int attempt))")
    auto

text \<open>The loop over \<open>zip(batch, ybatch)\<close> on a multi-ticker frame; a failing access is passed.\<close>

fun record_multi :: "(string \<times> close_series) list \<Rightarrow> (string \<times> string) list \<Rightarrow> date_table \<Rightarrow> date_table" where
  "record_multi cols [] res = res"
| "record_multi cols ((orig, ysym) # rest) res =
     record_multi cols rest
       (case map_of cols ysym of
          None \<Rightarrow> res
        | Some c \<Rightarrow> (case first_valid_date c of None \<Rightarrow> res | Some d \<Rightarrow> AList.update orig d res))"

text \<open>The two branches on the shape of \<open>df\<close>; \<open>df["Close"]\<close> of the second is not guarded.\<close>

definition record_batch ::
  "batch_frame option \<Rightarrow> string list \<Rightarrow> string list \<Rightarrow> date_table \<Rightarrow> py_error + date_table" where
  "record_batch df batch ybatch res =
     (case df of
        Some (MultiFrame cols) \<Rightarrow> Inr (record_multi cols (zip batch ybatch) res)
      | Some (FlatFrame close) \<Rightarrow>
          if length batch = 1 then
            (case close of
               None \<Rightarrow> Inl KeyError
             | Some c \<Rightarrow>
                 (case first_valid_date c of
                    None \<Rightarrow> Inr res
                  | Some d \<Rightarrow> Inr (AList.update (hd batch) d res)))
          else Inr res
      | None \<Rightarrow> Inr res)"

text \<open>The single-ticker fallback for one symbol, with its own retry counter.\<close>

function single_fetch ::
  "vendor \<Rightarrow> string \<Rightarrow> string \<Rightarrow> rat \<Rightarrow> int \<Rightarrow> nat \<Rightarrow> rstate \<Rightarrow> (py_error \<times> rstate) + rstate" where
  "single_fetch V t ysym pause max_retries attempt_i st =
     (if int attempt_i \<le> max_retries \<and> t \<notin> fst ` set (results st) then
        (case download_single V (calls st) ysym of
           Returns (Some c) \<Rightarrow>
             (case first_valid_date c of
                Some d \<Rightarrow> Inr (st\<lparr>calls := calls st + 1, results := AList.update t d (results st)\<rparr>)
              | None \<Rightarrow> Inr (st\<lparr>calls := calls st + 1\<rparr>))
         | Returns None \<Rightarrow> Inr (st\<lparr>calls := calls st + 1\<rparr>)
         | Raises msg \<Rightarrow>
             if is_rate_limit msg
             then (case backoff pause attempt_i (st\<lparr>calls := calls st + 1\<rparr>) of
                     Inl err \<Rightarrow> Inl err
                   | Inr st' \<Rightarrow> single_fetch V t ysym pause max_retries (attempt_i + 1) st')
             else Inr (st\<lparr>calls := calls st + 1\<rparr>))
      else Inr st)"
  by pat_completeness auto
termination
  by (relation "measure (\<lambda>(V, t, ysym, pause, max_retries, attempt_i, st). nat (max_retries + 1 - int attempt_i))")
    auto

text \<open>
  The loop over the missing symbols, with \<open>throttle(0.1)\<close> after each; \<open>1 / 10\<close> stands for
  the double \<open>0.1\<close>.
\<close>

fun fallback_all :: "vendor \<Rightarrow> string list \<Rightarrow> rat \<Rightarrow> int \<Rightarrow> rstate \<Rightarrow> (py_error \<times> rstate) + rstate" where
  "fallback_all V [] pause max_retries st = Inr st"
| "fallback_all V (t # ts) pause max_retries st =
     (case single_fetch V t (to_yahoo_symbol t) pause max_retries 0 st of
        Inl err \<Rightarrow> Inl err
      | Inr st1 \<Rightarrow>
          (case throttle (1 / 10) st1 of
             Inl err \<Rightarrow> Inl err
           | Inr st2 \<Rightarrow> fallback_all V ts pause max_retries st2))"

text \<open>One iteration of the loop over the batches, ending with \<open>throttle(pause)\<close>.\<close>

definition process_batch ::
  "vendor \<Rightarrow> string list \<Rightarrow> rat \<Rightarrow> int \<Rightarrow> rstate \<Rightarrow> (py_error \<times> rstate) + rstate" where
  "process_batch V batch pause max_retries st =
     (let ybatch = map to_yahoo_symbol batch
      in case batch_fetch V ybatch pause max_retries 0 st of
           Inl err \<Rightarrow> Inl err
         | Inr (df, st1) \<Rightarrow>
             (case record_batch df batch ybatch (results st1) of
                Inl err \<Rightarrow> Inl (err, st1)
              | Inr res \<Rightarrow>
                  (case fallback_all V (filter (\<lambda>t. t \<notin> fst ` set res) batch) pause max_retries
                          (st1\<lparr>results := res\<rparr>) of
                     Inl err \<Rightarrow> Inl err
                   | Inr st2 \<Rightarrow> throttle pause st2)))"

fun run_batches ::
  "vendor \<Rightarrow> string list list \<Rightarrow> rat \<Rightarrow> int \<Rightarrow> rstate \<Rightarrow> (py_error \<times> rstate) + rstate" where
  "run_batches V [] pause max_retries st = Inr st"
| "run_batches V (batch # rest) pause max_retries st =
     (case process_batch V batch pause max_retries st of
        Inl err \<Rightarrow> Inl err
      | Inr st' \<Rightarrow> run_batches V rest pause max_retries st')"

text \<open>\<open>range(i, stop, step)\<close> for a positive step; it is empty for a negative one.\<close>

function py_range :: "nat \<Rightarrow> nat \<Rightarrow> nat \<Rightarrow> nat list" where
  "py_range i stop step = (if 0 < step \<and> i < stop then i # py_range (i + step) stop step else [])"
  by pat_completeness auto
termination
  by (relation "measure (\<lambda>(i, stop, step). stop - i)") auto

text \<open>
  The resolver. The input is cleaned first; \<open>range\<close> raises \<open>ValueError\<close> for a step of zero.
  The returned table lists the items of \<open>results\<close>.
\<close>

definition earliest_vendor_dates ::
  "vendor \<Rightarrow> pyobj list \<Rightarrow> int \<Rightarrow> rat \<Rightarrow> int \<Rightarrow> rstate \<Rightarrow> (py_error \<times> rstate) + (date_table \<times> rstate)" where
  "earliest_vendor_dates V tickers batch_size pause max_retries st =
     (case normalize_tickers tickers of
        Inl err \<Rightarrow> Inl (err, st)
      | Inr ts \<Rightarrow>
          if batch_size = 0 then Inl (ValueError, st\<lparr>results := []\<rparr>)
          else
            (case run_batches V
                    (map (\<lambda>i. take (nat batch_size) (drop i ts)) (py_range 0 (length ts) (nat batch_size)))
                    pause max_retries (st\<lparr>results := []\<rparr>) of
               Inl err \<Rightarrow> Inl err
             | Inr st' \<Rightarrow> Inr (results st', st')))"

section \<open>vendor_yahoo.py: earliest_vendor_dates_with_cache\<close>

text \<open>\<open>tickers = [t.strip().upper() for t in tickers if t]\<close>, for a list of strings.\<close>

definition normalize_input :: "string list \<Rightarrow> string list" where
  "normalize_input tickers = map (\<lambda>t. py_upper (py_strip t)) (filter (\<lambda>t. t \<noteq> []) tickers)"

text \<open>
  The loop over the rows of the cache frame fills the dictionary \<open>cached\<close>. It runs inside
  \<open>try\<close>: \<open>pd.to_datetime\<close> raises on a date text it cannot parse, and the handler leaves
  \<open>cached\<close> as the rows before have filled it.
\<close>

fun load_rows :: "(sym_cell \<times> date_text) list \<Rightarrow> date_table \<Rightarrow> date_table" where
  "load_rows [] cached = cached"
| "load_rows ((c, d) # rows) cached =
     (case d of
        NoDate \<Rightarrow> load_rows rows cached
      | DateStr x \<Rightarrow> load_rows rows (AList.update (py_upper (str_of_cell c)) x cached)
      | BadDate \<Rightarrow> cached)"

text \<open>
  \<open>pd.read_csv\<close> may raise; \<open>row["Symbol"]\<close> raises on the first row of a frame without that
  column; \<open>row.get("EarliestVendorDate")\<close> is \<open>None\<close> in a frame without that column.
\<close>

definition load_cache :: "csv_file \<Rightarrow> date_table" where
  "load_cache f =
     (case read_csv f of
        None \<Rightarrow> []
      | Some (has_symbol, has_date, rows) \<Rightarrow>
          if \<not> has_symbol then []
          else load_rows (if has_date then rows else map (\<lambda>(c, d). (c, NoDate)) rows) [])"

definition cached_of :: "path option \<Rightarrow> fs \<Rightarrow> bool \<Rightarrow> date_table" where
  "cached_of cache_path fs force_recheck =
     (case cache_path of
        None \<Rightarrow> []
      | Some p \<Rightarrow>
          (case fs p of
             None \<Rightarrow> []
           | Some f \<Rightarrow> if \<not> force_recheck then load_cache f else []))"

text \<open>\<open>to_fetch = [t for t in tickers if force_recheck or t not in cached]\<close>\<close>

definition to_fetch_of :: "string list \<Rightarrow> date_table \<Rightarrow> bool \<Rightarrow> string list" where
  "to_fetch_of tickers cached force_recheck =
     filter (\<lambda>t. force_recheck \<or> t \<notin> fst ` set cached) tickers"

text \<open>The list that the run hands to the resolver (which is not called when it is empty).\<close>

definition resolver_input :: "string list \<Rightarrow> path option \<Rightarrow> fs \<Rightarrow> bool \<Rightarrow> string list" where
  "resolver_input tickers cache_path fs force_recheck =
     to_fetch_of (normalize_input tickers) (cached_of cache_path fs force_recheck) force_recheck"

text \<open>\<open>merged_map\<close>: the cached items, then the fetched rows with the symbol uppercased.\<close>

definition merge_fetched :: "date_table \<Rightarrow> date_table \<Rightarrow> date_table" where
  "merge_fetched cached fetched =
     fold (\<lambda>(s, d) m. AList.update (py_upper s) d m) fetched
       (fold (\<lambda>(s, d) m. AList.update s d m) cached [])"

text \<open>
  The whole function on a file system and a run state: the returned table, the file system
  with the cache rewritten, and the state after the downloads. The write-back is outside any
  \<open>try\<close>; the file system of the model accepts every write.
\<close>

definition earliest_vendor_dates_with_cache ::
  "vendor \<Rightarrow> string list \<Rightarrow> path option \<Rightarrow> int \<Rightarrow> rat \<Rightarrow> int \<Rightarrow> bool \<Rightarrow> fs \<Rightarrow> rstate
   \<Rightarrow> (py_error \<times> rstate) + (date_table \<times> fs \<times> rstate)" where
  "earliest_vendor_dates_with_cache V tickers cache_path batch_size pause max_retries force_recheck fs st =
     (let ts = normalize_input tickers;
          cached = cached_of cache_path fs force_recheck;
          to_fetch = to_fetch_of ts cached force_recheck
      in case (if to_fetch = [] then Inr ([], st)
               else earliest_vendor_dates V (map PyStr to_fetch) batch_size pause max_retries st) of
           Inl err \<Rightarrow> Inl err
         | Inr (fetched, st') \<Rightarrow>
             (let all_rows = sort (merge_fetched cached fetched);
                  fs' = (case cache_path of None \<Rightarrow> fs | Some p \<Rightarrow> fs(p \<mapsto> to_csv all_rows))
              in Inr (filter (\<lambda>r. fst r \<in> set ts) all_rows, fs', st')))"

section \<open>cli.py: validating a sample of the cache\<close>

text \<open>
  The keys of \<open>cached_map\<close>: the symbols of the rows with a date, first occurrences in row
  order. (Only the keys of \<open>cached_map\<close> are used.)
\<close>

definition cached_keys :: "(string \<times> date option) list \<Rightarrow> string list" where
  "cached_keys vdf = dict_fromkeys (map fst (filter (\<lambda>r. snd r \<noteq> None) vdf))"

text \<open>\<open>candidates = [s for s in cached_map.keys() if s in universe_syms]\<close>\<close>

definition validation_candidates :: "sym_cell list \<Rightarrow> (string \<times> date option) list \<Rightarrow> string list" where
  "validation_candidates universe vdf =
     (let universe_syms = set (map (\<lambda>c. py_upper (str_of_cell c)) universe)
      in filter (\<lambda>s. s \<in> universe_syms) (cached_keys vdf))"

text \<open>
  The left join of the fresh rows with the cache rows on the symbol, and the rows of it in which
  both dates are present and differ: \<open>Symbol\<close>, \<open>FreshDate\<close>, \<open>CachedDate\<close>.
\<close>

definition mismatch_of :: "string \<Rightarrow> date \<Rightarrow> string \<times> date option \<Rightarrow> (string \<times> date \<times> date) option" where
  "mismatch_of s fd r =
     (case snd r of
        Some c \<Rightarrow> if fst r = s \<and> fd \<noteq> c then Some (s, fd, c) else None
      | None \<Rightarrow> None)"

definition mismatches :: "date_table \<Rightarrow> (string \<times> date option) list \<Rightarrow> (string \<times> date \<times> date) list" where
  "mismatches fresh vdf =
     concat (map (\<lambda>(s, fd). List.map_filter (mismatch_of (py_upper s) fd) vdf) fresh)"

text \<open>
  The validation block of \<open>main\<close>. \<open>pick\<close> stands for \<open>random.sample\<close>, which raises when the
  sample size is negative or exceeds the population. Every exception inside the block is
  swallowed; the downloads made until then remain made.
\<close>

definition validate_cache ::
  "vendor \<Rightarrow> (string list \<Rightarrow> nat \<Rightarrow> string list) \<Rightarrow> bool \<Rightarrow> path option \<Rightarrow> bool \<Rightarrow> pyfloat \<Rightarrow> int
   \<Rightarrow> path \<Rightarrow> sym_cell list \<Rightarrow> int \<Rightarrow> rat \<Rightarrow> int \<Rightarrow> fs \<Rightarrow> rstate \<Rightarrow> fs \<times> rstate" where
  "validate_cache V pick skip_validate vcache_path force_recheck validate_cache_sample
     validate_cache_min outp universe batch_size pause max_retries fs st =
     (case vcache_path of
        None \<Rightarrow> (fs, st)
      | Some vp \<Rightarrow>
          (case fs vp of
             None \<Rightarrow> (fs, st)
           | Some vfile \<Rightarrow>
               if skip_validate \<or> force_recheck \<or> \<not> float_gt_zero validate_cache_sample then (fs, st)
               else
                 (case read_csv vfile of
                    None \<Rightarrow> (fs, st)
                  | Some (has_symbol, has_date, rows) \<Rightarrow>
                      if \<not> (has_symbol \<and> has_date) then (fs, st)
                      else
                        (let vdf = map normalise_row rows;
                             candidates = validation_candidates universe vdf
                         in if candidates = [] then (fs, st)
                            else
                              (case sample_size (length candidates) validate_cache_sample
                                      validate_cache_min of
                                 Inl err \<Rightarrow> (fs, st)
                               | Inr k \<Rightarrow>
                                   if k < 0 \<or> int (length candidates) < k then (fs, st)
                                   else
                                     (case earliest_vendor_dates V
                                             (map PyStr (pick candidates (nat k)))
                                             (min batch_size 50) pause max_retries st of
                                        Inl (err, st') \<Rightarrow> (fs, st')
                                      | Inr (fresh, st') \<Rightarrow>
                                          if fresh = [] then (fs, st')
                                          else (fs(outp \<mapsto> Report (mismatches fresh vdf)), st')))))))"

section \<open>Invariants\<close>

text \<open>The dictionary \<open>results\<close> has one item per key, and its keys are among \<open>T\<close>.\<close>

definition keys_within :: "string set \<Rightarrow> date_table \<Rightarrow> bool" where
  "keys_within T res \<longleftrightarrow> distinct (map fst res) \<and> fst ` set res \<subseteq> T"

section \<open>Example runs\<close>

text \<open>The state before a run, and three vendors: one that has no data for any symbol, one that
  is rate limited on the first two downloads, and one that is always rate limited.\<close>

definition initial_state :: rstate where
  "initial_state = \<lparr>calls = 0, sleeps = [], results = []\<rparr>"

definition aapl_frame :: batch_frame where
  "aapl_frame = MultiFrame [(''AAPL'', [((1999, 12, 1), None), ((2000, 1, 1), Some 3)])]"

definition vendor_no_data :: vendor where
  "vendor_no_data =
     \<lparr>download_batch = (\<lambda>n ybatch. Returns (MultiFrame [])),
      download_single = (\<lambda>n ysym. Returns (Some []))\<rparr>"

definition vendor_limited_twice :: vendor where
  "vendor_limited_twice =
     \<lparr>download_batch = (\<lambda>n ybatch. if n < 2 then Raises ''HTTP Error 429: Too Many Requests''
                                    else Returns aapl_frame),
      download_single = (\<lambda>n ysym. Returns (Some []))\<rparr>"

definition vendor_always_limited :: vendor where
  "vendor_always_limited =
     \<lparr>download_batch = (\<lambda>n ybatch. Raises ''Too Many Requests. Rate limited. Try after a while.''),
      download_single = (\<lambda>n ysym. Returns (Some []))\<rparr>"

text \<open>An input with duplicates, padding, mixed case and entries that are not tickers.\<close>

definition example_entries :: "pyobj list" where
  "example_entries = [PyStr '' aapl'', PyStr ''AAPL'', PyNone, PyStr [], PyInt 5, PyStr ''brk.b '']"

text \<open>A file system whose vendor cache knows two symbols.\<close>

definition example_fs :: fs where
  "example_fs = [''cache.csv'' \<mapsto> to_csv [(''ZZ'', (2001, 1, 1)), (''AAPL'', (2000, 1, 1))]]"




text \<open>A file system whose vendor cache knows one symbol.\<close>

definition aapl_cache :: fs where
  "aapl_cache = [''cache.csv'' \<mapsto> to_csv [(''AAPL'', (2000, 1, 1))]]"

text \<open>A cache file whose second row has a date that cannot be parsed.\<close>

definition corrupt_cache :: csv_file where
  "corrupt_cache = Csv True True
     [(''AAPL'', DateStr (2000, 1, 1)), (''MSFT'', BadDate), (''IBM'', DateStr (1981, 1, 1))]"

text \<open>A file system whose vendor cache is that file.\<close>

definition corrupt_fs :: fs where
  "corrupt_fs = [''cache.csv'' \<mapsto> corrupt_cache]"

text \<open>A sampler that takes the first \<open>k\<close> candidates.\<close>

definition take_first :: "string list \<Rightarrow> nat \<Rightarrow> string list" where
  "take_first candidates k = take k candidates"

section \<open>Properties of the string helpers\<close>

lemma upper_char_idem: "upper_char (upper_char c) = upper_char c"
proof (cases "CHR ''a'' \<le> c \<and> c \<le> CHR ''z''")
  case True
  then have r: "97 \<le> (of_char c :: nat)" "(of_char c :: nat) \<le> 122"
    by (simp_all add: less_eq_char_def)
  have "\<not> CHR ''a'' \<le> (char_of (of_char c - (32::nat)) :: char)"
    using r by (simp add: less_eq_char_def)
  then show ?thesis by (simp add: upper_char_def)
next
  case False
  then show ?thesis by (auto simp add: upper_char_def)
qed

lemma py_upper_idem: "py_upper (py_upper s) = py_upper s"
  by (simp add: py_upper_def upper_char_idem)

lemma py_upper_fixed: "\<forall>c \<in> set s. upper_char c = c \<Longrightarrow> py_upper s = s"
  by (simp add: py_upper_def map_idI)

lemma set_py_strip: "set (py_strip s) \<subseteq> set s"
proof -
  have "set (py_strip s) \<subseteq> set (dropWhile is_space s)"
    unfolding py_strip_def using set_dropWhileD by fastforce
  also have "\<dots> \<subseteq> set s" using set_dropWhileD by fastforce
  finally show ?thesis .
qed

lemma set_caret_suffix: "set (py_strip (drop 1 (dropWhile P s))) \<subseteq> set s"
proof -
  have "set (drop 1 (dropWhile P s)) \<subseteq> set s"
    by (meson set_drop_subset set_dropWhileD subsetI subsetD)
  with set_py_strip show ?thesis by blast
qed

section \<open>The notation adapter\<close>

lemma replace_slash_then_dot:
  "py_replace (CHR ''.'') (CHR ''-'') (py_replace (CHR ''/'') (CHR ''-'') s) = replace_dot_slash s"
  by (simp add: py_replace_def replace_dot_slash_def)

lemma replace_dot_then_slash:
  "py_replace (CHR ''/'') (CHR ''-'') (py_replace (CHR ''.'') (CHR ''-'') s) = replace_dot_slash s"
  by (auto simp add: py_replace_def replace_dot_slash_def)

lemma to_yahoo_symbol_upper_strip:
  "to_yahoo_symbol t = vendor_form_rules (py_upper (py_strip t))"
proof -
  define s where "s = py_upper (py_strip t)"
  have fixed: "\<forall>c \<in> set s. upper_char c = c"
    by (auto simp add: s_def py_upper_def upper_char_idem)
  have suf: "py_upper (py_strip (drop 1 (dropWhile (\<lambda>c. c \<noteq> CHR ''^'') s)))
           = py_strip (drop 1 (dropWhile (\<lambda>c. c \<noteq> CHR ''^'') s))"
    using fixed set_caret_suffix [of "\<lambda>c. c \<noteq> CHR ''^''" s]
    by (intro py_upper_fixed) blast
  show ?thesis
    unfolding to_yahoo_symbol_def vendor_form_rules_def s_def [symmetric] Let_def
    using suf
    by (auto simp add: split_caret_def replace_slash_then_dot replace_dot_then_slash
        slash_suffixes_def)
qed

text \<open>
  Claim C9. \<open>to_yahoo_symbol\<close> is a total function of its argument alone. On the stripped,
  uppercased ticker it applies the three rules in order: with a caret, base, \<open>-P\<close> and the
  trimmed suffix (the base alone when the suffix is empty); otherwise, for a ticker ending in
  \<open>/WS\<close>, \<open>/W\<close>, \<open>/WT\<close>, \<open>/RT\<close> or \<open>/U\<close>, every slash and dot becomes a hyphen; otherwise
  every dot and slash becomes a hyphen. On a ticker that is already stripped and uppercase the
  result is exactly the rules' result, and \<open>BRK.B\<close>, \<open>NLY^F\<close>, \<open>ABC/WS\<close> map to
  \<open>BRK-B\<close>, \<open>NLY-PF\<close>, \<open>ABC-WS\<close>.
\<close>

theorem to_yahoo_symbol_rules:
  "to_yahoo_symbol t = vendor_form_rules (py_upper (py_strip t))
   \<and> (py_upper (py_strip t) = t \<longrightarrow> to_yahoo_symbol t = vendor_form_rules t)
   \<and> to_yahoo_symbol ''BRK.B'' = ''BRK-B''
   \<and> to_yahoo_symbol ''NLY^F'' = ''NLY-PF''
   \<and> to_yahoo_symbol ''ABC/WS'' = ''ABC-WS''"
proof -
  have a: "to_yahoo_symbol ''BRK.B'' = ''BRK-B''" by code_simp
  have b: "to_yahoo_symbol ''NLY^F'' = ''NLY-PF''" by code_simp
  have c: "to_yahoo_symbol ''ABC/WS'' = ''ABC-WS''" by code_simp
  show ?thesis using to_yahoo_symbol_upper_strip [of t] a b c by simp
qed

theorem to_yahoo_symbol_rules_witness:
  "py_upper (py_strip ''NLY^F'') = ''NLY^F''
   \<and> to_yahoo_symbol ''NLY^F'' = vendor_form_rules ''NLY^F''
   \<and> vendor_form_rules ''NLY^F'' = ''NLY-PF''"
proof -
  have n: "py_upper (py_strip ''NLY^F'') = ''NLY^F''" by code_simp
  have v: "vendor_form_rules ''NLY^F'' = ''NLY-PF''" by code_simp
  show ?thesis using to_yahoo_symbol_rules [of "''NLY^F''"] n v by simp
qed

section \<open>Normalisation of tickers is idempotent\<close>

lemma char_eq_nat: "c = d \<longleftrightarrow> (of_char c :: nat) = of_char d"
  by (metis of_char_eq_iff)

lemma is_space_code: "is_space c \<longleftrightarrow> (of_char c :: nat) \<in> {9, 10, 11, 12, 13, 28, 29, 30, 31, 32}"
  unfolding is_space_def by (simp add: char_eq_nat [of c]) blast

lemma is_space_upper_char: "is_space (upper_char c) = is_space c"
proof (cases "CHR ''a'' \<le> c \<and> c \<le> CHR ''z''")
  case True
  then have r: "97 \<le> (of_char c :: nat)" "(of_char c :: nat) \<le> 122"
    by (simp_all add: less_eq_char_def)
  then have "(of_char (char_of (of_char c - (32::nat)) :: char) :: nat) = of_char c - 32"
    by simp
  then have "\<not> is_space (char_of (of_char c - (32::nat)))" "\<not> is_space c"
    using r unfolding is_space_code by auto
  then show ?thesis using True by (simp add: upper_char_def)
next
  case False
  then show ?thesis by (auto simp add: upper_char_def)
qed

lemma py_strip_upper: "py_strip (py_upper s) = py_upper (py_strip s)"
  by (simp add: py_strip_def py_upper_def dropWhile_map rev_map comp_def is_space_upper_char)

lemma py_strip_idem: "py_strip (py_strip s) = py_strip s"
proof -
  define t where "t = dropWhile is_space s"
  define a where "a = dropWhile is_space (rev t)"
  have s: "py_strip s = rev a" by (simp add: py_strip_def t_def a_def)
  have t_split: "t = rev a @ rev (takeWhile is_space (rev t))"
    by (metis a_def rev_append rev_rev_ident takeWhile_dropWhile_id)
  have "dropWhile is_space (rev a) = rev a"
  proof (cases "rev a")
    case Nil
    then show ?thesis by simp
  next
    case (Cons x xs)
    then have "hd t = x" using t_split by (metis append_Cons list.sel(1))
    moreover have "t \<noteq> []" using t_split Cons by auto
    ultimately have "\<not> is_space x" using hd_dropWhile [of is_space s] by (simp add: t_def)
    then show ?thesis using Cons by simp
  qed
  moreover have "dropWhile is_space a = a" by (simp add: a_def)
  ultimately show ?thesis unfolding s by (simp add: py_strip_def)
qed

lemma upper_strip_idem: "py_upper (py_strip (py_upper (py_strip s))) = py_upper (py_strip s)"
  by (simp add: py_strip_upper py_upper_idem py_strip_idem)

section \<open>Floating-point helpers\<close>

lemma math_ceil_Finite: "math_ceil (Finite m e) = Inr \<lceil>float_value m e\<rceil>"
proof (cases "0 \<le> e")
  case True
  then have "float_value m e = of_int (m * 2 ^ nat e)"
    by (simp add: float_value_def power_int_def)
  then have "\<lceil>float_value m e\<rceil> = m * 2 ^ nat e"
    by (simp only: ceiling_of_int)
  then show ?thesis using True by (simp add: math_ceil_def)
next
  case False
  then have "float_value m e = of_int m / of_int (2 ^ nat (- e))"
    by (simp add: float_value_def power_int_def field_simps)
  then have "\<lceil>float_value m e\<rceil> = - \<lfloor>of_int (- m) / (of_int (2 ^ nat (- e)) :: rat)\<rfloor>"
    by (simp add: ceiling_def del: of_int_power)
  also have "\<dots> = - ((- m) div 2 ^ nat (- e))"
    by (simp only: floor_divide_of_int_eq)
  finally show ?thesis using False by (simp add: math_ceil_def)
qed


lemma round53_pos:
  assumes "0 < m"
  shows "0 < fst (round53 m e)"
proof (cases "bitlen \<bar>m\<bar> \<le> 53")
  case True
  then show ?thesis using assms by (simp add: round53_def)
next
  case False
  define sh where "sh = nat (bitlen m - 53)"
  have b: "2 ^ nat (bitlen m - 1) \<le> m" using bitlen_bounds [OF assms] by simp
  have "nat (bitlen m - 1) = 52 + sh" using False assms by (simp add: sh_def)
  then have le: "(2::int) ^ 52 * 2 ^ sh \<le> m" using b by (simp add: power_add)
  have "((2::int) ^ 52 * 2 ^ sh) div 2 ^ sh \<le> m div 2 ^ sh"
    by (rule zdiv_mono1 [OF le]) simp
  then have "(2::int) ^ 52 \<le> m div 2 ^ sh" by simp
  moreover have "(0::int) < 2 ^ 52" by simp
  ultimately have "0 < m div 2 ^ sh" by (rule less_le_trans [rotated])
  then show ?thesis using False assms
    by (simp add: round53_def Let_def sh_def)
qed


lemma mul_int_float_pos:
  assumes "0 < n" "float_gt_zero f" "mul_int_float n f = Finite p e"
  shows "0 < p"
proof -
  obtain mf ef where f: "f = Finite mf ef" and mf: "0 < mf"
    using assms(2,3) assms(1) by (cases f) (auto simp add: float_gt_zero_def mul_int_float_def)
  obtain mn en where r1: "round53 n 0 = (mn, en)" by (cases "round53 n 0")
  have mn: "0 < mn" using round53_pos [OF assms(1), of 0] r1 by simp
  obtain q qe where r2: "round53 (mn * mf) (en + ef) = (q, qe)"
    by (cases "round53 (mn * mf) (en + ef)")
  have q: "0 < q" using round53_pos [of "mn * mf" "en + ef"] mn mf r2 by simp
  have "to_double (mn * mf) (en + ef) = Finite p e"
    using assms(3) f r1 by (simp add: mul_int_float_def)
  then have "p = q" using r2 by (simp add: to_double_def split: if_splits)
  then show ?thesis using q by simp
qed

lemma float_value_pos: "0 < p \<Longrightarrow> 0 < float_value p e"
  by (simp add: float_value_def)

lemma double_0_05_nearest:
  "double_0_05 = Finite 7205759403792794 (- 57)
   \<and> 2 ^ 52 \<le> (7205759403792794::int) \<and> (7205759403792794::int) < 2 ^ 53
   \<and> \<bar>float_value 7205759403792794 (- 57) - 5 / 100\<bar> < 2 powi (- 58)"
  by (simp add: double_0_05_def float_value_def power_int_minus)

lemma sample_500: "sample_size 500 double_0_05 20 = Inr 25"
  by code_simp

lemma bitlen_le:
  assumes "0 < x" "x < 2 ^ w"
  shows "bitlen x \<le> int w"
proof -
  have "(2::int) ^ nat (bitlen x - 1) \<le> x" using bitlen_bounds [OF assms(1)] by simp
  then have "(2::int) ^ nat (bitlen x - 1) < 2 ^ w" using assms(2) by linarith
  then have "nat (bitlen x - 1) < w" by (simp add: power_strict_increasing_iff)
  then show ?thesis by linarith
qed

lemma bitlen_mult:
  assumes "0 < a" "0 < b"
  shows "bitlen (a * b) \<le> bitlen a + bitlen b"
proof -
  have a: "a < 2 ^ nat (bitlen a)" and b: "b < 2 ^ nat (bitlen b)"
    using bitlen_bounds [OF assms(1)] bitlen_bounds [OF assms(2)] by simp_all
  have "a * b < 2 ^ nat (bitlen a) * 2 ^ nat (bitlen b)"
    using a b assms by (intro mult_strict_mono) simp_all
  then have "a * b < 2 ^ (nat (bitlen a) + nat (bitlen b))" by (simp add: power_add)
  then have "bitlen (a * b) \<le> int (nat (bitlen a) + nat (bitlen b))"
    using assms by (intro bitlen_le) simp_all
  then show ?thesis using bitlen_nonneg [of a] bitlen_nonneg [of b] by simp
qed

lemma round53_bitlen:
  assumes "0 < m" "round53 m e = (p, pe)"
  shows "bitlen p + pe \<le> bitlen m + e + 1"
proof (cases "bitlen \<bar>m\<bar> \<le> 53")
  case True
  then show ?thesis using assms by (simp add: round53_def)
next
  case False
  define sh where "sh = nat (bitlen m - 53)"
  define q where "q = m div 2 ^ sh"
  define q' where "q' = (if 2 ^ (sh - 1) < m mod 2 ^ sh \<or> (m mod 2 ^ sh = 2 ^ (sh - 1) \<and> odd q)
                          then q + 1 else q)"
  have big: "53 < bitlen m" using False assms(1) by simp
  have res: "p = q'" "pe = e + int sh"
    using assms False by (auto simp add: round53_def Let_def sh_def q_def q'_def)
  have "m < 2 ^ nat (bitlen m)" using bitlen_bounds [OF assms(1)] by simp
  moreover have "nat (bitlen m) = 53 + sh" using big by (simp add: sh_def)
  ultimately have m: "m < 2 ^ 53 * 2 ^ sh" by (simp add: power_add)
  have "m = q * 2 ^ sh + m mod 2 ^ sh" unfolding q_def by (rule div_mult_mod_eq [symmetric])
  moreover have "0 \<le> m mod 2 ^ sh" by simp
  ultimately have "q * 2 ^ sh \<le> m" by linarith
  then have "q * 2 ^ sh < 2 ^ 53 * 2 ^ sh" using m by linarith
  then have q: "q < 2 ^ 53" by (simp add: mult_less_cancel_right)
  have "(2::int) ^ 52 * 2 ^ sh \<le> m"
  proof -
    have "2 ^ nat (bitlen m - 1) \<le> m" using bitlen_bounds [OF assms(1)] by simp
    moreover have "nat (bitlen m - 1) = 52 + sh" using big by (simp add: sh_def)
    ultimately show ?thesis by (simp add: power_add)
  qed
  then have "((2::int) ^ 52 * 2 ^ sh) div 2 ^ sh \<le> m div 2 ^ sh" by (rule zdiv_mono1) simp
  then have qpos: "0 < q" by (simp add: q_def)
  have "0 < q'" "q' < 2 ^ 54" using q qpos by (auto simp add: q'_def)
  then have "bitlen q' \<le> 54" using bitlen_le [of q' 54] by simp
  then show ?thesis using res big by (simp add: sh_def)
qed

lemma round53_exact:
  "\<bar>m\<bar> < 2 ^ 53 \<Longrightarrow> round53 m e = (m, e)"
proof -
  assume a: "\<bar>m\<bar> < 2 ^ 53"
  have "bitlen \<bar>m\<bar> \<le> 53"
  proof (cases "m = 0")
    case True
    then show ?thesis by simp
  next
    case False
    then show ?thesis using bitlen_le [of "\<bar>m\<bar>" 53] a by simp
  qed
  then show ?thesis by (simp add: round53_def)
qed

text \<open>The overflow test of \<open>to_double\<close> compares the magnitude with \<open>2 ^ 1024\<close>.\<close>

lemma overflow_test:
  assumes "0 < p"
  shows "1024 < bitlen \<bar>p\<bar> + pe \<longleftrightarrow> (2::rat) ^ 1024 \<le> \<bar>float_value p pe\<bar>"
proof -
  define b where "b = bitlen p"
  have b1: "1 \<le> b" using assms bitlen_eq_zero_iff [of p] bitlen_nonneg [of p] by (simp add: b_def)
  have lo: "(2::int) ^ nat (b - 1) \<le> p" and hi: "p < 2 ^ nat b"
    using bitlen_bounds [OF assms] by (simp_all add: b_def)
  have lo': "(2::rat) powi (b - 1) \<le> of_int p"
  proof -
    have "(of_int ((2::int) ^ nat (b - 1)) :: rat) \<le> of_int p" using lo by (simp only: of_int_le_iff)
    then show ?thesis using b1 by (simp add: power_int_def)
  qed
  have hi': "(of_int p :: rat) < 2 powi b"
  proof -
    have "(of_int p :: rat) < of_int ((2::int) ^ nat b)" using hi by (simp only: of_int_less_iff)
    then show ?thesis using b1 by (simp add: power_int_def)
  qed
  have v: "\<bar>float_value p pe\<bar> = of_int p * 2 powi pe"
    using assms by (simp add: float_value_def abs_mult)
  show ?thesis
  proof
    assume "1024 < bitlen \<bar>p\<bar> + pe"
    then have "1024 \<le> b - 1 + pe" using assms by (simp add: b_def)
    then have "(2::rat) powi 1024 \<le> 2 powi (b - 1 + pe)" by (intro power_int_increasing) simp_all
    also have "\<dots> = 2 powi (b - 1) * 2 powi pe" by (simp add: power_int_add)
    also have "\<dots> \<le> of_int p * 2 powi pe" using lo' by (intro mult_right_mono) simp_all
    finally show "(2::rat) ^ 1024 \<le> \<bar>float_value p pe\<bar>" by (simp add: v)
  next
    assume a: "(2::rat) ^ 1024 \<le> \<bar>float_value p pe\<bar>"
    show "1024 < bitlen \<bar>p\<bar> + pe"
    proof (rule ccontr)
      assume "\<not> 1024 < bitlen \<bar>p\<bar> + pe"
      then have "b + pe \<le> 1024" using assms by (simp add: b_def)
      have "of_int p * 2 powi pe < 2 powi b * (2 powi pe :: rat)"
        using hi' by (intro mult_strict_right_mono) simp_all
      also have "\<dots> = 2 powi (b + pe)" by (simp add: power_int_add)
      also have "\<dots> \<le> 2 powi 1024" using \<open>b + pe \<le> 1024\<close> by (intro power_int_increasing) simp_all
      finally show False using a by (simp add: v)
    qed
  qed
qed

text \<open>Rounding to 53 bits moves a value by at most half a unit in the last place.\<close>

lemma round53_nearest:
  assumes "0 < m" "round53 m e = (p, pe)"
  shows "\<bar>float_value p pe - float_value m e\<bar> * 2 \<le> 2 powi pe"
proof (cases "bitlen \<bar>m\<bar> \<le> 53")
  case True
  then have "p = m" "pe = e" using assms by (simp_all add: round53_def)
  then show ?thesis by simp
next
  case False
  define sh where "sh = nat (bitlen m - 53)"
  define q where "q = m div 2 ^ sh"
  define r where "r = m mod 2 ^ sh"
  define q' where "q' = (if 2 ^ (sh - 1) < r \<or> (r = 2 ^ (sh - 1) \<and> odd q) then q + 1 else q)"
  have big: "53 < bitlen m" using False assms(1) by simp
  then have sh: "0 < sh" by (simp add: sh_def)
  have res: "p = q'" "pe = e + int sh"
    using assms False by (auto simp add: round53_def Let_def sh_def q_def q'_def r_def)
  have m: "m = q * 2 ^ sh + r" unfolding q_def r_def by (rule div_mult_mod_eq [symmetric])
  have r: "0 \<le> r" "r < 2 ^ sh" by (simp_all add: r_def)
  have two: "(2::int) ^ sh = 2 * 2 ^ (sh - 1)" using sh by (cases sh) simp_all
  have "\<bar>q' * 2 ^ sh - m\<bar> * 2 \<le> 2 ^ sh"
  proof (cases "2 ^ (sh - 1) < r \<or> (r = 2 ^ (sh - 1) \<and> odd q)")
    case True
    then have "q' * 2 ^ sh - m = 2 ^ sh - r" using m by (simp add: q'_def algebra_simps)
    then show ?thesis using True r two by auto
  next
    case False
    then have "q' * 2 ^ sh - m = - r" using m by (simp add: q'_def)
    then show ?thesis using False r two by auto
  qed
  then have "of_int (\<bar>q' * 2 ^ sh - m\<bar> * 2) \<le> (of_int (2 ^ sh) :: rat)"
    by (simp only: of_int_le_iff)
  then have int_err: "\<bar>of_int q' * 2 ^ sh - of_int m\<bar> * 2 \<le> (2 ^ sh :: rat)"
    by simp
  have pw: "(2::rat) powi (e + int sh) = 2 ^ sh * 2 powi e"
    by (simp add: power_int_add)
  have "float_value p pe - float_value m e = (of_int q' * 2 ^ sh - of_int m) * 2 powi e"
    by (simp add: float_value_def res pw algebra_simps)
  then have "\<bar>float_value p pe - float_value m e\<bar> * 2
           = (\<bar>of_int q' * 2 ^ sh - of_int m\<bar> * 2) * 2 powi e"
    by (simp add: abs_mult)
  also have "\<dots> \<le> 2 ^ sh * 2 powi e"
    using int_err by (intro mult_right_mono) simp_all
  finally show ?thesis by (simp add: res pw)
qed

text \<open>
  The product of a list length and a fraction is finite: every list has fewer than \<open>2 ^ 63\<close>
  elements, and every fraction is far below \<open>2 ^ 900\<close>.
\<close>

lemma fraction_product_finite:
  assumes "0 < n" "n < 2 ^ 63" "0 < mf" "bitlen mf + ef \<le> 900"
  shows "\<exists>p e. mul_int_float n (Finite mf ef) = Finite p e"
proof -
  obtain mn en where r1: "round53 n 0 = (mn, en)" by (cases "round53 n 0")
  have mn: "0 < mn" using round53_pos [OF assms(1), of 0] r1 by simp
  have b1: "bitlen mn + en \<le> bitlen n + 1" using round53_bitlen [OF assms(1) r1] by simp
  have bn: "bitlen n \<le> 63" using bitlen_le [OF assms(1,2)] by simp
  obtain p pe where r2: "round53 (mn * mf) (en + ef) = (p, pe)"
    by (cases "round53 (mn * mf) (en + ef)")
  have pos: "0 < mn * mf" using mn assms(3) by simp
  have "bitlen p + pe \<le> bitlen (mn * mf) + (en + ef) + 1"
    using round53_bitlen [OF pos r2] .
  also have "\<dots> \<le> bitlen mn + bitlen mf + (en + ef) + 1"
    using bitlen_mult [OF mn assms(3)] by simp
  also have "\<dots> \<le> 1024" using b1 bn assms(4) by simp
  finally have small: "\<not> 1024 < bitlen p + pe" by simp
  have "0 < p" using round53_pos [OF pos, of "en + ef"] r2 by simp
  then have "mul_int_float n (Finite mf ef) = Finite p pe"
    using r1 r2 small by (simp add: mul_int_float_def to_double_def)
  then show ?thesis by blast
qed

text \<open>
  Claim C8. For a non-empty candidate list of size \<open>n\<close>, a positive sample fraction \<open>f\<close> and a
  minimum \<open>m\<close>, the sample size is \<open>min (max (ceil (n * f)) m) n\<close>, where \<open>n * f\<close> is the
  double-precision product of the two, taken to be finite; the size lies between 1 and \<open>n\<close>.
  With 500 candidates, fraction 0.05 and minimum 20 it is 25; with 10 candidates and minimum 20
  it is 10.
\<close>

theorem sample_size_formula:
  assumes "0 < n" and "float_gt_zero f" and "mul_int_float (int n) f = Finite p e"
  shows "sample_size n f m = Inr (min (max \<lceil>float_value p e\<rceil> m) (int n))
       \<and> 1 \<le> min (max \<lceil>float_value p e\<rceil> m) (int n)
       \<and> min (max \<lceil>float_value p e\<rceil> m) (int n) \<le> int n
       \<and> (n = 10 \<and> m = 20 \<longrightarrow> sample_size n f m = Inr 10)
       \<and> sample_size 500 double_0_05 20 = Inr 25"
proof -
  have k: "sample_size n f m = Inr (min (max \<lceil>float_value p e\<rceil> m) (int n))"
    using assms(3) by (simp add: sample_size_def math_ceil_Finite)
  have "0 < p" using mul_int_float_pos [of "int n" f p e] assms by simp
  then have "0 < float_value p e" by (rule float_value_pos)
  then have "1 \<le> \<lceil>float_value p e\<rceil>" by (simp add: less_ceiling_iff [symmetric] flip: zless_iff_Suc_zadd)
  then have lo: "1 \<le> min (max \<lceil>float_value p e\<rceil> m) (int n)"
    using assms(1) by linarith
  have cap: "n = 10 \<and> m = 20 \<longrightarrow> sample_size n f m = Inr 10"
    using k lo by auto
  show ?thesis using k lo cap sample_500 by simp
qed

theorem sample_size_formula_witness:
  "(0::nat) < 500 \<and> float_gt_zero double_0_05
   \<and> mul_int_float (int 500) double_0_05 = Finite 7036874417766400 (- 48)
   \<and> sample_size 500 double_0_05 20 = Inr (min (max \<lceil>float_value 7036874417766400 (- 48)\<rceil> 20) (int 500))
   \<and> \<lceil>float_value 7036874417766400 (- 48)\<rceil> = 25"
proof -
  have a: "(0::nat) < 500" by simp
  have b: "float_gt_zero double_0_05" by (simp add: float_gt_zero_def double_0_05_def)
  have c: "mul_int_float (int 500) double_0_05 = Finite 7036874417766400 (- 48)" by code_simp
  have d: "\<lceil>float_value 7036874417766400 (- 48)\<rceil> = 25"
    by (simp add: float_value_def power_int_minus)
  show ?thesis using sample_size_formula [OF a b c, of 20] a b c d by simp
qed

section \<open>Merging cache tables\<close>



































section \<open>The retry loops of the resolver\<close>

declare batch_fetch.simps [simp del]

declare single_fetch.simps [simp del]

declare py_range.simps [simp del]

text \<open>A sleep of at most \<open>max_wait\<close> seconds is accepted; a sleep changes the list of sleeps only.\<close>

lemma time_sleep_ok:
  "seconds \<le> max_wait \<Longrightarrow> time_sleep seconds st = Inr (st\<lparr>sleeps := sleeps st @ [seconds]\<rparr>)"
  by (simp add: time_sleep_def max_wait_def)

lemma throttle_ok:
  "seconds \<le> max_wait \<Longrightarrow>
   throttle seconds st = Inr (if 0 < seconds then st\<lparr>sleeps := sleeps st @ [seconds]\<rparr> else st)"
  by (simp add: throttle_def time_sleep_ok)

lemma throttle_pos:
  "0 < w \<Longrightarrow> w \<le> max_wait \<Longrightarrow> throttle w st = Inr (st\<lparr>sleeps := sleeps st @ [w]\<rparr>)"
  by (simp add: throttle_ok)

lemma throttle_Inr:
  "throttle w st = Inr st' \<Longrightarrow> calls st' = calls st \<and> results st' = results st"
  by (auto simp add: throttle_def time_sleep_def split: if_splits)

lemma throttle_Inl: "throttle w st = Inl err \<Longrightarrow> err = (OverflowError, st) \<and> max_wait < w"
  by (auto simp add: throttle_def time_sleep_def max_wait_def split: if_splits)

lemma backoff_ok:
  "attempt < 1024 \<Longrightarrow> pause * 2 ^ attempt \<le> max_wait \<Longrightarrow>
   backoff pause attempt st =
   Inr (if 0 < pause then st\<lparr>sleeps := sleeps st @ [pause * 2 ^ attempt]\<rparr> else st)"
  by (simp add: backoff_def throttle_ok zero_less_mult_iff)

lemma backoff_Inr:
  "backoff pause attempt st = Inr st' \<Longrightarrow> calls st' = calls st \<and> results st' = results st"
  by (auto simp add: backoff_def dest: throttle_Inr split: if_splits)

text \<open>The conversion of \<open>2 ** attempt\<close> to a double fails from attempt 1024 on.\<close>

lemma backoff_attempt_1024: "1024 \<le> attempt \<Longrightarrow> backoff pause attempt st = Inl (OverflowError, st)"
  by (simp add: backoff_def)

lemma backoff_too_long:
  assumes "attempt < 1024" "9223372036854775296 \<le> pause * 2 ^ attempt * 1000000000"
  shows "backoff pause attempt st = Inl (OverflowError, st)"
proof -
  have "\<not> pause * 2 ^ attempt \<le> 0"
  proof
    assume "pause * 2 ^ attempt \<le> 0"
    then have "pause * 2 ^ attempt * 1000000000 \<le> 0" by (simp add: mult_le_0_iff)
    with assms(2) show False by simp
  qed
  then have p: "0 < pause * 2 ^ attempt" "pause * 2 ^ attempt \<noteq> 0" by auto
  have "throttle (pause * 2 ^ attempt) st = Inl (OverflowError, st)"
    unfolding throttle_def time_sleep_def using p assms(2) by (simp only: if_True simp_thms)
  then show ?thesis using assms(1) by (simp add: backoff_def)
qed

text \<open>The waits of powers of two up to the last one are within the bound when the last one is.\<close>

lemma waits_within:
  assumes "pause * 2 ^ n \<le> max_wait" "a \<le> n"
  shows "pause * 2 ^ a \<le> max_wait"
proof (cases "0 \<le> pause")
  case True
  have "(2::rat) ^ a \<le> 2 ^ n" using assms(2) by (simp add: power_increasing)
  then have "pause * 2 ^ a \<le> pause * 2 ^ n" using True by (rule mult_left_mono)
  then show ?thesis using assms(1) by simp
next
  case False
  then have "pause * 2 ^ a \<le> 0" by (simp add: mult_le_0_iff)
  then show ?thesis by (simp add: max_wait_def)
qed

text \<open>The sleeps of the attempts \<open>a\<close> to \<open>b - 1\<close>, all of which hit a rate limit.\<close>

lemma batch_fetch_rate_limited:
  assumes "0 < pause"
    and "\<forall>a < k. \<exists>msg. download_batch V (calls st + a) ybatch = Raises msg \<and> is_rate_limit msg"
    and "int (attempt + k) \<le> max_retries + 1"
    and "attempt + k \<le> 1024"
    and "\<forall>a < attempt + k. pause * 2 ^ a \<le> max_wait"
  shows "batch_fetch V ybatch pause max_retries attempt st =
         batch_fetch V ybatch pause max_retries (attempt + k)
           (st\<lparr>calls := calls st + k,
               sleeps := sleeps st @ map (\<lambda>a. pause * 2 ^ a) [attempt ..< attempt + k]\<rparr>)"
  using assms(2,3,4,5)
proof (induction k arbitrary: attempt st)
  case 0
  then show ?case by simp
next
  case (Suc k)
  from Suc.prems(1) obtain msg where
    msg: "download_batch V (calls st) ybatch = Raises msg" "is_rate_limit msg"
    by force
  define st' where "st' = st\<lparr>calls := calls st + 1, sleeps := sleeps st @ [pause * 2 ^ attempt]\<rparr>"
  have a: "attempt < 1024" using Suc.prems(3) by simp
  have w: "pause * 2 ^ attempt \<le> max_wait" using Suc.prems(4) by simp
  have bo: "backoff pause attempt (st\<lparr>calls := calls st + 1\<rparr>) = Inr st'"
    using assms(1) by (simp add: backoff_ok [OF a w] st'_def)
  have le: "int attempt \<le> max_retries" using Suc.prems(2) by simp
  have step: "batch_fetch V ybatch pause max_retries attempt st =
              batch_fetch V ybatch pause max_retries (attempt + 1) st'"
    by (subst batch_fetch.simps) (use bo in \<open>simp add: le msg\<close>)
  have lim: "\<forall>a < k. \<exists>msg. download_batch V (calls st' + a) ybatch = Raises msg \<and> is_rate_limit msg"
  proof (intro allI impI)
    fix a assume "a < k"
    then have "Suc a < Suc k" by simp
    with Suc.prems(1) have
      "\<exists>msg. download_batch V (calls st + Suc a) ybatch = Raises msg \<and> is_rate_limit msg"
      by blast
    then show "\<exists>msg. download_batch V (calls st' + a) ybatch = Raises msg \<and> is_rate_limit msg"
      by (simp add: st'_def)
  qed
  have bound: "int (attempt + 1 + k) \<le> max_retries + 1" using Suc.prems(2) by simp
  have b1024: "attempt + 1 + k \<le> 1024" using Suc.prems(3) by simp
  have ws: "\<forall>a < attempt + 1 + k. pause * 2 ^ a \<le> max_wait" using Suc.prems(4) by simp
  have upt: "[attempt ..< attempt + Suc k] = attempt # [attempt + 1 ..< attempt + 1 + k]"
    by (simp add: upt_conv_Cons)
  show ?case
    unfolding step Suc.IH [OF lim bound b1024 ws] upt
    by (simp add: st'_def)
qed

lemma batch_fetch_exhausted:
  "\<not> int attempt \<le> max_retries \<Longrightarrow> batch_fetch V ybatch pause max_retries attempt st = Inr (None, st)"
  by (subst batch_fetch.simps) simp

lemma batch_fetch_returns:
  "int attempt \<le> max_retries \<Longrightarrow> download_batch V (calls st) ybatch = Returns df \<Longrightarrow>
   batch_fetch V ybatch pause max_retries attempt st = Inr (Some df, st\<lparr>calls := calls st + 1\<rparr>)"
  by (subst batch_fetch.simps) simp

text \<open>A rate limit whose backoff raises ends the loop with the exception.\<close>

lemma batch_fetch_raises:
  "int attempt \<le> max_retries \<Longrightarrow> download_batch V (calls st) ybatch = Raises msg \<Longrightarrow>
   is_rate_limit msg \<Longrightarrow> backoff pause attempt (st\<lparr>calls := calls st + 1\<rparr>) = Inl err \<Longrightarrow>
   batch_fetch V ybatch pause max_retries attempt st = Inl err"
  by (subst batch_fetch.simps) simp

lemma process_batch_failed:
  assumes "batch_fetch V (map to_yahoo_symbol batch) pause max_retries 0 st = Inr (None, st1)"
  shows "process_batch V batch pause max_retries st =
         (case fallback_all V (filter (\<lambda>t. t \<notin> fst ` set (results st1)) batch) pause max_retries st1 of
            Inl err \<Rightarrow> Inl err
          | Inr st2 \<Rightarrow> throttle pause st2)"
  using assms by (simp add: process_batch_def record_batch_def)

lemma rate_limit_messages:
  "is_rate_limit ''HTTP Error 429: Too Many Requests''"
  "is_rate_limit ''Too Many Requests. Rate limited. Try after a while.''"
  by code_simp+

text \<open>
  From attempt 1024 on the backoff cannot compute its wait: a batch that is rate limited 1025
  times, with waits that \<open>time.sleep\<close> accepts, ends the resolver with \<open>OverflowError\<close>.
\<close>

lemma batch_fetch_conversion_overflow:
  assumes "0 < pause"
    and "\<forall>a < 1025. \<exists>msg. download_batch V (calls st + a) ybatch = Raises msg \<and> is_rate_limit msg"
    and "1024 \<le> max_retries"
    and "pause * 2 ^ 1023 \<le> max_wait"
  shows "batch_fetch V ybatch pause max_retries 0 st =
         Inl (OverflowError,
              st\<lparr>calls := calls st + 1025, sleeps := sleeps st @ map (\<lambda>a. pause * 2 ^ a) [0 ..< 1024]\<rparr>)"
proof -
  let ?st = "st\<lparr>calls := calls st + 1024, sleeps := sleeps st @ map (\<lambda>a. pause * 2 ^ a) [0 ..< 1024]\<rparr>"
  have lim: "\<forall>a < 1024. \<exists>msg. download_batch V (calls st + a) ybatch = Raises msg \<and> is_rate_limit msg"
    using assms(2) by simp
  have ws: "\<forall>a < 0 + 1024. pause * 2 ^ a \<le> max_wait"
    using waits_within [OF assms(4)] by simp
  have b: "int (0 + 1024) \<le> max_retries + 1" using assms(3) by simp
  have steps: "batch_fetch V ybatch pause max_retries 0 st =
               batch_fetch V ybatch pause max_retries 1024 ?st"
    using batch_fetch_rate_limited [OF assms(1) lim b _ ws] by simp
  obtain msg where msg: "download_batch V (calls ?st) ybatch = Raises msg" "is_rate_limit msg"
    using assms(2) [rule_format, of 1024] by auto
  have "batch_fetch V ybatch pause max_retries 1024 ?st = Inl (OverflowError, ?st\<lparr>calls := calls ?st + 1\<rparr>)"
    using assms(3) msg by (intro batch_fetch_raises [where msg = msg]) (simp_all add: backoff_attempt_1024)
  then show ?thesis using steps by simp
qed

text \<open>
  Claim C7 says that a rate limit on attempt \<open>a\<close> causes a wait of \<open>pause * 2 ^ a\<close> seconds
  before the batch is retried, and that a batch out of retries is left failed rather than
  raising. In the first run the pause is \<open>1e10\<close> seconds and the first download is rate
  limited: \<open>time.sleep\<close> refuses the wait, and \<open>OverflowError\<close> leaves the batch loop and the resolver after one download,
  without a sleep, a retry or the single-symbol fallback. In the second run the pause is
  \<open>2 ** -1000\<close> seconds, there are 1024 retries and every download is rate limited: the
  first 1024 waits, of at most \<open>2 ** 23\<close> seconds, are slept, and the wait of attempt 1024
  cannot be computed, so that \<open>OverflowError\<close> leaves the loop where the claim has the batch
  go on to the single-symbol fallback.
\<close>

theorem backoff_beyond_sleep_limit:
  "download_batch vendor_always_limited (calls initial_state) (map to_yahoo_symbol [''AAPL''])
     = Raises ''Too Many Requests. Rate limited. Try after a while.''
   \<and> is_rate_limit ''Too Many Requests. Rate limited. Try after a while.''
   \<and> batch_fetch vendor_always_limited (map to_yahoo_symbol [''AAPL'']) 10000000000 3 0 initial_state =
       Inl (OverflowError, \<lparr>calls = 1, sleeps = [], results = []\<rparr>)
   \<and> process_batch vendor_always_limited [''AAPL''] 10000000000 3 initial_state =
       Inl (OverflowError, \<lparr>calls = 1, sleeps = [], results = []\<rparr>)
   \<and> earliest_vendor_dates vendor_always_limited [PyStr ''AAPL''] 50 10000000000 3 initial_state =
       Inl (OverflowError, \<lparr>calls = 1, sleeps = [], results = []\<rparr>)
   \<and> batch_fetch vendor_always_limited (map to_yahoo_symbol [''AAPL'']) (1 / 2 ^ 1000) 1024 0
         initial_state =
       Inl (OverflowError,
            \<lparr>calls = 1025, sleeps = map (\<lambda>a. 1 / 2 ^ 1000 * 2 ^ a) [0 ..< 1024], results = []\<rparr>)"
proof -
  have a: "download_batch vendor_always_limited (calls initial_state) (map to_yahoo_symbol [''AAPL''])
     = Raises ''Too Many Requests. Rate limited. Try after a while.''"
    by (simp add: vendor_always_limited_def)
  have b: "batch_fetch vendor_always_limited (map to_yahoo_symbol [''AAPL'']) 10000000000 3 0 initial_state =
       Inl (OverflowError, \<lparr>calls = 1, sleeps = [], results = []\<rparr>)"
    by code_simp
  have c: "process_batch vendor_always_limited [''AAPL''] 10000000000 3 initial_state =
       Inl (OverflowError, \<lparr>calls = 1, sleeps = [], results = []\<rparr>)"
    by code_simp
  have d: "earliest_vendor_dates vendor_always_limited [PyStr ''AAPL''] 50 10000000000 3 initial_state =
       Inl (OverflowError, \<lparr>calls = 1, sleeps = [], results = []\<rparr>)"
    by code_simp
  have p: "(0::rat) < 1 / 2 ^ 1000" by simp
  have l: "\<forall>a < 1025. \<exists>msg. download_batch vendor_always_limited (calls initial_state + a)
             (map to_yahoo_symbol [''AAPL'']) = Raises msg \<and> is_rate_limit msg"
    by (simp add: vendor_always_limited_def rate_limit_messages)
  have "(1 / 2 ^ 1000 :: rat) * 2 ^ 1023 = 2 ^ 23"
    using power_add [of "2::rat" 1000 23] by simp
  then have w: "(1 / 2 ^ 1000 :: rat) * 2 ^ 1023 \<le> max_wait" by (simp add: max_wait_def)
  have e: "batch_fetch vendor_always_limited (map to_yahoo_symbol [''AAPL'']) (1 / 2 ^ 1000) 1024 0
         initial_state =
       Inl (OverflowError,
            \<lparr>calls = 1025, sleeps = map (\<lambda>a. 1 / 2 ^ 1000 * 2 ^ a) [0 ..< 1024], results = []\<rparr>)"
    using batch_fetch_conversion_overflow [OF p l _ w, of 1024] by (simp add: initial_state_def)
  show ?thesis using a b c d e rate_limit_messages(2) by simp
qed

text \<open>
  Claim C7, amended. In the batch loop, when the first \<open>k\<close> attempts (numbered from 0, at most
  1024 of them) hit a rate limit and every wait \<open>pause * 2 ^ a\<close> of these attempts is at most
  \<open>max_wait\<close> seconds, the loop sleeps \<open>pause * 2 ^ a\<close> after attempt \<open>a\<close>, for a positive
  pause. When attempt \<open>k\<close> is within \<open>max_retries\<close> and succeeds, the frame is returned after
  exactly these \<open>k\<close> sleeps; with a pause of one second and \<open>k = 2\<close> they are 1 and 2
  seconds. When all \<open>max_retries + 1\<close> attempts hit the limit, the loop ends without a frame
  and without an exception, and the batch goes on to the single-symbol fallback for all of its
  unresolved symbols.
\<close>

theorem batch_retry_backoff:
  assumes "0 < pause"
    and "\<forall>a < k. \<exists>msg. download_batch V (calls st + a) (map to_yahoo_symbol batch) = Raises msg
                        \<and> is_rate_limit msg"
    and "k \<le> 1024"
    and "\<forall>a < k. pause * 2 ^ a \<le> max_wait"
  shows "(int k \<le> max_retries \<and> download_batch V (calls st + k) (map to_yahoo_symbol batch) = Returns df
          \<longrightarrow> batch_fetch V (map to_yahoo_symbol batch) pause max_retries 0 st =
               Inr (Some df, st\<lparr>calls := calls st + k + 1,
                                sleeps := sleeps st @ map (\<lambda>a. pause * 2 ^ a) [0 ..< k]\<rparr>))
       \<and> (int k = max_retries + 1
          \<longrightarrow> batch_fetch V (map to_yahoo_symbol batch) pause max_retries 0 st =
               Inr (None, st\<lparr>calls := calls st + k,
                             sleeps := sleeps st @ map (\<lambda>a. pause * 2 ^ a) [0 ..< k]\<rparr>)
              \<and> process_batch V batch pause max_retries st =
                (case fallback_all V (filter (\<lambda>t. t \<notin> fst ` set (results st)) batch) pause max_retries
                        (st\<lparr>calls := calls st + k,
                            sleeps := sleeps st @ map (\<lambda>a. pause * 2 ^ a) [0 ..< k]\<rparr>) of
                   Inl err \<Rightarrow> Inl err
                 | Inr st2 \<Rightarrow> throttle pause st2))
       \<and> (pause = 1 \<and> k = 2 \<longrightarrow> map (\<lambda>a. pause * 2 ^ a) [0 ..< k] = [1, 2])"
proof -
  let ?yb = "map to_yahoo_symbol batch"
  let ?st = "st\<lparr>calls := calls st + k, sleeps := sleeps st @ map (\<lambda>a. pause * 2 ^ a) [0 ..< k]\<rparr>"
  have ws: "\<forall>a < 0 + k. pause * 2 ^ a \<le> max_wait" using assms(4) by simp
  have k: "0 + k \<le> 1024" using assms(3) by simp
  have steps: "int k \<le> max_retries + 1 \<Longrightarrow>
      batch_fetch V ?yb pause max_retries 0 st = batch_fetch V ?yb pause max_retries k ?st"
    using batch_fetch_rate_limited [OF assms(1), of k V st ?yb 0 max_retries, OF _ _ k ws] assms(2)
    by simp
  have ok: "batch_fetch V ?yb pause max_retries 0 st =
            Inr (Some df, st\<lparr>calls := calls st + k + 1,
                             sleeps := sleeps st @ map (\<lambda>a. pause * 2 ^ a) [0 ..< k]\<rparr>)"
    if "int k \<le> max_retries" "download_batch V (calls st + k) ?yb = Returns df"
  proof -
    have "batch_fetch V ?yb pause max_retries k ?st = Inr (Some df, ?st\<lparr>calls := calls ?st + 1\<rparr>)"
      using that by (intro batch_fetch_returns) simp_all
    then show ?thesis using steps that(1) by simp
  qed
  have fail: "batch_fetch V ?yb pause max_retries 0 st = Inr (None, ?st)" if "int k = max_retries + 1"
    using steps that batch_fetch_exhausted [of k max_retries V ?yb pause ?st] by simp
  have fb: "process_batch V batch pause max_retries st =
            (case fallback_all V (filter (\<lambda>t. t \<notin> fst ` set (results st)) batch) pause max_retries ?st of
               Inl err \<Rightarrow> Inl err
             | Inr st2 \<Rightarrow> throttle pause st2)"
    if "int k = max_retries + 1"
    using process_batch_failed [OF fail [OF that]] by simp
  have ex: "pause = 1 \<and> k = 2 \<longrightarrow> map (\<lambda>a. pause * 2 ^ a) [0 ..< k] = [1, 2]"
    by (auto simp add: upt_rec [of 0] upt_rec [of 1] numeral_2_eq_2)
  show ?thesis using ok fail fb ex by blast
qed

theorem batch_retry_backoff_witness:
  "(0::rat) < 1
   \<and> download_batch vendor_limited_twice (calls initial_state + 0) (map to_yahoo_symbol [''AAPL''])
       = Raises ''HTTP Error 429: Too Many Requests''
   \<and> download_batch vendor_limited_twice (calls initial_state + 1) (map to_yahoo_symbol [''AAPL''])
       = Raises ''HTTP Error 429: Too Many Requests''
   \<and> is_rate_limit ''HTTP Error 429: Too Many Requests''
   \<and> (2::nat) \<le> 1024
   \<and> (1::rat) * 2 ^ 0 \<le> max_wait
   \<and> (1::rat) * 2 ^ 1 \<le> max_wait
   \<and> download_batch vendor_limited_twice (calls initial_state + 2) (map to_yahoo_symbol [''AAPL''])
       = Returns aapl_frame
   \<and> batch_fetch vendor_limited_twice (map to_yahoo_symbol [''AAPL'']) 1 2 0 initial_state =
       Inr (Some aapl_frame, \<lparr>calls = 3, sleeps = [1, 2], results = []\<rparr>)
   \<and> download_batch vendor_always_limited (calls initial_state + 0) (map to_yahoo_symbol [''AAPL''])
       = Raises ''Too Many Requests. Rate limited. Try after a while.''
   \<and> download_batch vendor_always_limited (calls initial_state + 1) (map to_yahoo_symbol [''AAPL''])
       = Raises ''Too Many Requests. Rate limited. Try after a while.''
   \<and> is_rate_limit ''Too Many Requests. Rate limited. Try after a while.''
   \<and> batch_fetch vendor_always_limited (map to_yahoo_symbol [''AAPL'']) 1 1 0 initial_state =
       Inr (None, \<lparr>calls = 2, sleeps = [1, 2], results = []\<rparr>)
   \<and> process_batch vendor_always_limited [''AAPL''] 1 1 initial_state =
       Inr \<lparr>calls = 3, sleeps = [1, 2, 1 / 10, 1], results = []\<rparr>"
proof -
  have p: "(0::rat) < 1" by simp
  have h1: "\<forall>a < 2. \<exists>msg. download_batch vendor_limited_twice (calls initial_state + a)
                        (map to_yahoo_symbol [''AAPL'']) = Raises msg \<and> is_rate_limit msg"
    by (simp add: vendor_limited_twice_def initial_state_def rate_limit_messages)
  have h2: "\<forall>a < 2. \<exists>msg. download_batch vendor_always_limited (calls initial_state + a)
                        (map to_yahoo_symbol [''AAPL'']) = Raises msg \<and> is_rate_limit msg"
    by (simp add: vendor_always_limited_def rate_limit_messages)
  have k: "(2::nat) \<le> 1024" by simp
  have w0: "(1::rat) * 2 ^ 0 \<le> max_wait" and w1: "(1::rat) * 2 ^ 1 \<le> max_wait"
    by (simp_all add: max_wait_def)
  have ws: "\<forall>a < 2. (1::rat) * 2 ^ a \<le> max_wait"
    using w0 w1 by (auto simp add: less_Suc_eq numeral_2_eq_2)
  have r: "download_batch vendor_limited_twice (calls initial_state + 2)
             (map to_yahoo_symbol [''AAPL'']) = Returns aapl_frame"
    by (simp add: vendor_limited_twice_def initial_state_def)
  have l: "map (\<lambda>a. (1::rat) * 2 ^ a) [0 ..< 2] = [1, 2]"
    by (simp add: upt_rec [of 0] upt_rec [of 1] numeral_2_eq_2)
  have fb: "(case fallback_all vendor_always_limited
                    (filter (\<lambda>t. t \<notin> fst ` set (results initial_state)) [''AAPL'']) 1 1
                    \<lparr>calls = 2, sleeps = [1, 2], results = []\<rparr> of
               Inl err \<Rightarrow> Inl err
             | Inr st2 \<Rightarrow> throttle 1 st2) =
            Inr \<lparr>calls = 3, sleeps = [1, 2, 1 / 10, 1], results = []\<rparr>"
    by code_simp
  have a: "batch_fetch vendor_limited_twice (map to_yahoo_symbol [''AAPL'']) 1 2 0 initial_state =
       Inr (Some aapl_frame, \<lparr>calls = 3, sleeps = [1, 2], results = []\<rparr>)"
    using batch_retry_backoff [OF p h1 k ws, of 2 aapl_frame] r l
    by (simp add: initial_state_def)
  have e: "int 2 = (1::int) + 1" by simp
  have st2: "initial_state\<lparr>calls := calls initial_state + 2,
                           sleeps := sleeps initial_state @ map (\<lambda>a. 1 * 2 ^ a) [0 ..< 2]\<rparr> =
             \<lparr>calls = 2, sleeps = [1, 2], results = []\<rparr>"
    unfolding l by (simp add: initial_state_def)
  have b: "batch_fetch vendor_always_limited (map to_yahoo_symbol [''AAPL'']) 1 1 0 initial_state =
       Inr (None, \<lparr>calls = 2, sleeps = [1, 2], results = []\<rparr>)
     \<and> process_batch vendor_always_limited [''AAPL''] 1 1 initial_state =
       Inr \<lparr>calls = 3, sleeps = [1, 2, 1 / 10, 1], results = []\<rparr>"
    using batch_retry_backoff [OF p h2 k ws, of 1, THEN conjunct2, THEN conjunct1, rule_format, OF e]
    unfolding st2 fb .
  have c: "download_batch vendor_limited_twice (calls initial_state + 0) (map to_yahoo_symbol [''AAPL''])
       = Raises ''HTTP Error 429: Too Many Requests''"
     "download_batch vendor_limited_twice (calls initial_state + 1) (map to_yahoo_symbol [''AAPL''])
       = Raises ''HTTP Error 429: Too Many Requests''"
    by (simp_all add: vendor_limited_twice_def initial_state_def)
  have d: "download_batch vendor_always_limited (calls initial_state + 0) (map to_yahoo_symbol [''AAPL''])
       = Raises ''Too Many Requests. Rate limited. Try after a while.''"
     "download_batch vendor_always_limited (calls initial_state + 1) (map to_yahoo_symbol [''AAPL''])
       = Raises ''Too Many Requests. Rate limited. Try after a while.''"
    by (simp_all add: vendor_always_limited_def)
  show ?thesis using p k w0 w1 r a b c d rate_limit_messages by blast
qed

section \<open>The input normalisation of the resolver\<close>

lemma remdups_drop_later: "x \<in> set b \<Longrightarrow> remdups (a @ x # b) = remdups (a @ b)"
  by (induction a) auto

lemma fold_fromkeys:
  "distinct acc \<Longrightarrow>
   fold (\<lambda>x acc. if x \<in> set acc then acc else acc @ [x]) xs acc = rev (remdups (rev (acc @ xs)))"
proof (induction xs arbitrary: acc)
  case Nil
  then show ?case by (simp add: distinct_remdups_id)
next
  case (Cons x xs)
  show ?case
  proof (cases "x \<in> set acc")
    case True
    then have "remdups (rev xs @ x # rev acc) = remdups (rev xs @ rev acc)"
      by (intro remdups_drop_later) simp
    then show ?thesis using True Cons by simp
  next
    case False
    then have "distinct (acc @ [x])" using Cons.prems by simp
    from Cons.IH [OF this] show ?thesis using False by simp
  qed
qed

lemma dict_fromkeys_first_seen: "dict_fromkeys xs = rev (remdups (rev xs))"
  unfolding dict_fromkeys_def using fold_fromkeys [of "[]" xs] by simp

lemma distinct_dict_fromkeys: "distinct (dict_fromkeys xs)"
  by (simp add: dict_fromkeys_first_seen)

lemma set_dict_fromkeys: "set (dict_fromkeys xs) = set xs"
  by (simp add: dict_fromkeys_first_seen)

text \<open>
  The cleaning of the entries: an entry whose truth test raises ends it with \<open>TypeError\<close>;
  without such an entry it keeps the non-empty strings, stripped and uppercased.
\<close>

lemma clean_entries_NA: "PyNA \<in> set entries \<Longrightarrow> clean_entries entries = Inl TypeError"
proof (induction entries)
  case Nil
  then show ?case by simp
next
  case (Cons t ts)
  show ?case
  proof (cases "t = PyNA")
    case True
    then show ?thesis by simp
  next
    case False
    then have "clean_entries ts = Inl TypeError" using Cons by simp
    then show ?thesis by (cases t) simp_all
  qed
qed

lemma clean_entries_strings:
  "PyNA \<notin> set entries \<Longrightarrow>
   clean_entries entries = Inr [py_upper (py_strip s). PyStr s \<leftarrow> entries, s \<noteq> []]"
proof (induction entries)
  case Nil
  then show ?case by simp
next
  case (Cons t ts)
  then show ?case by (cases t) simp_all
qed

lemma set_kept_strings:
  "set [py_upper (py_strip s). PyStr s \<leftarrow> entries, s \<noteq> []] =
   {py_upper (py_strip s) | s. PyStr s \<in> set entries \<and> s \<noteq> []}"
proof (induction entries)
  case Nil
  then show ?case by simp
next
  case (Cons t ts)
  then show ?case by (cases t) auto
qed

lemma normalize_tickers_NA: "PyNA \<in> set entries \<Longrightarrow> normalize_tickers entries = Inl TypeError"
  by (simp add: normalize_tickers_def clean_entries_NA)

lemma normalize_tickers_strings:
  "PyNA \<notin> set entries \<Longrightarrow>
   normalize_tickers entries =
   Inr (rev (remdups (rev [py_upper (py_strip s). PyStr s \<leftarrow> entries, s \<noteq> []])))"
  by (simp add: normalize_tickers_def clean_entries_strings dict_fromkeys_first_seen)

lemma normalize_tickers_Inr:
  assumes "normalize_tickers entries = Inr ts"
  shows "PyNA \<notin> set entries \<and> distinct ts
         \<and> set ts = {py_upper (py_strip s) | s. PyStr s \<in> set entries \<and> s \<noteq> []}"
proof -
  have na: "PyNA \<notin> set entries"
    using assms normalize_tickers_NA [of entries] by auto
  have "ts = rev (remdups (rev [py_upper (py_strip s). PyStr s \<leftarrow> entries, s \<noteq> []]))"
    using assms normalize_tickers_strings [OF na] by simp
  then show ?thesis using na set_kept_strings [of entries] by simp
qed

lemma normalize_tickers_PyStr:
  "\<exists>ts. normalize_tickers (map PyStr xs) = Inr ts
        \<and> set ts = {py_upper (py_strip s) | s. s \<in> set xs \<and> s \<noteq> []}"
proof -
  have na: "PyNA \<notin> set (map PyStr xs)" by auto
  obtain ts where ts: "normalize_tickers (map PyStr xs) = Inr ts"
    using normalize_tickers_strings [OF na] by blast
  have "set ts = {py_upper (py_strip s) | s. PyStr s \<in> set (map PyStr xs) \<and> s \<noteq> []}"
    using normalize_tickers_Inr [OF ts] by blast
  also have "\<dots> = {py_upper (py_strip s) | s. s \<in> set xs \<and> s \<noteq> []}" by auto
  finally show ?thesis using ts by blast
qed

section \<open>The keys of the results dictionary\<close>

lemma keys_within_update:
  "keys_within T res \<Longrightarrow> k \<in> T \<Longrightarrow> keys_within T (AList.update k v res)"
  by (simp add: keys_within_def distinct_update dom_update)

lemma keys_within_Nil [simp]: "keys_within T []"
  by (simp add: keys_within_def)

lemma batch_fetch_results:
  "batch_fetch V ybatch pause max_retries attempt st = Inr (df, st') \<Longrightarrow> results st' = results st"
proof (induction V ybatch pause max_retries attempt st rule: batch_fetch.induct)
  case (1 V ybatch pause max_retries attempt st)
  show ?case
  proof (cases "int attempt \<le> max_retries")
    case False
    then show ?thesis using "1.prems" by (subst (asm) batch_fetch.simps) auto
  next
    case le: True
    show ?thesis
    proof (cases "download_batch V (calls st) ybatch")
      case (Returns df')
      then show ?thesis using le "1.prems" by (subst (asm) batch_fetch.simps) auto
    next
      case (Raises msg)
      show ?thesis
      proof (cases "is_rate_limit msg")
        case True
        show ?thesis
        proof (cases "backoff pause attempt (st\<lparr>calls := calls st + 1\<rparr>)")
          case (Inl err)
          then show ?thesis using le Raises True "1.prems" by (subst (asm) batch_fetch.simps) simp
        next
          case (Inr st1)
          have "batch_fetch V ybatch pause max_retries (attempt + 1) st1 = Inr (df, st')"
            using le Raises True Inr "1.prems" by (subst (asm) batch_fetch.simps) simp
          from "1.IH" [OF le Raises True Inr this] have "results st' = results st1" .
          then show ?thesis using backoff_Inr [OF Inr] by simp
        qed
      next
        case False
        then show ?thesis using le Raises "1.prems" by (subst (asm) batch_fetch.simps) auto
      qed
    qed
  qed
qed

lemma batch_fetch_frame:
  "batch_fetch V ybatch pause max_retries attempt st = Inr (Some df, st') \<Longrightarrow>
   \<exists>n. download_batch V n ybatch = Returns df"
proof (induction V ybatch pause max_retries attempt st rule: batch_fetch.induct)
  case (1 V ybatch pause max_retries attempt st)
  show ?case
  proof (cases "int attempt \<le> max_retries")
    case False
    then show ?thesis using "1.prems" by (subst (asm) batch_fetch.simps) simp
  next
    case le: True
    show ?thesis
    proof (cases "download_batch V (calls st) ybatch")
      case (Returns df')
      then have "df' = df" using le "1.prems" by (subst (asm) batch_fetch.simps) simp
      then show ?thesis using Returns by blast
    next
      case (Raises msg)
      show ?thesis
      proof (cases "is_rate_limit msg")
        case True
        show ?thesis
        proof (cases "backoff pause attempt (st\<lparr>calls := calls st + 1\<rparr>)")
          case (Inl err)
          then show ?thesis using le Raises True "1.prems" by (subst (asm) batch_fetch.simps) simp
        next
          case (Inr st1)
          have "batch_fetch V ybatch pause max_retries (attempt + 1) st1 = Inr (Some df, st')"
            using le Raises True Inr "1.prems" by (subst (asm) batch_fetch.simps) simp
          from "1.IH" [OF le Raises True Inr this] show ?thesis .
        qed
      next
        case False
        then show ?thesis using le Raises "1.prems" by (subst (asm) batch_fetch.simps) simp
      qed
    qed
  qed
qed

lemma record_multi_keys:
  "keys_within T res \<Longrightarrow> fst ` set zs \<subseteq> T \<Longrightarrow> keys_within T (record_multi cols zs res)"
proof (induction cols zs res rule: record_multi.induct)
  case (1 cols res)
  then show ?case by simp
next
  case (2 cols orig ysym rest res)
  let ?res = "case map_of cols ysym of None \<Rightarrow> res
              | Some c \<Rightarrow> (case first_valid_date c of None \<Rightarrow> res | Some d \<Rightarrow> AList.update orig d res)"
  have "keys_within T ?res"
    using "2.prems" by (auto split: option.splits intro: keys_within_update)
  moreover have "fst ` set rest \<subseteq> T" using "2.prems" by simp
  ultimately have "keys_within T (record_multi cols rest ?res)" by (rule "2.IH")
  then show ?case by simp
qed

lemma record_batch_keys:
  assumes "record_batch df batch ybatch res = Inr res'" "keys_within T res" "set batch \<subseteq> T"
  shows "keys_within T res'"
proof -
  have z: "fst ` set (zip batch ybatch) \<subseteq> T"
    using assms(3) by (auto dest: set_zip_leftD)
  have h: "length batch = 1 \<Longrightarrow> hd batch \<in> T"
    using assms(3) by (cases batch) auto
  show ?thesis using assms(1,2) z h
    by (auto simp add: record_batch_def split: option.splits batch_frame.splits if_splits
        intro: record_multi_keys keys_within_update)
qed

lemma single_fetch_keys:
  "single_fetch V t ysym pause max_retries attempt_i st = Inr st' \<Longrightarrow>
   keys_within T (results st) \<Longrightarrow> t \<in> T \<Longrightarrow> keys_within T (results st')"
proof (induction V t ysym pause max_retries attempt_i st rule: single_fetch.induct)
  case (1 V t ysym pause max_retries attempt_i st)
  let ?st1 = "st\<lparr>calls := calls st + 1\<rparr>"
  show ?case
  proof (cases "int attempt_i \<le> max_retries \<and> t \<notin> fst ` set (results st)")
    case False
    then have "single_fetch V t ysym pause max_retries attempt_i st = Inr st"
      by (subst single_fetch.simps) auto
    then show ?thesis using "1.prems" by simp
  next
    case go: True
    show ?thesis
    proof (cases "download_single V (calls st) ysym")
      case (Returns close)
      have "single_fetch V t ysym pause max_retries attempt_i st =
            (case close of
               Some c \<Rightarrow>
                 (case first_valid_date c of
                    Some d \<Rightarrow> Inr (st\<lparr>calls := calls st + 1, results := AList.update t d (results st)\<rparr>)
                  | None \<Rightarrow> Inr ?st1)
             | None \<Rightarrow> Inr ?st1)"
        using go Returns by (subst single_fetch.simps) (simp split: option.splits)
      then show ?thesis using "1.prems"
        by (auto split: option.splits intro: keys_within_update)
    next
      case (Raises msg)
      show ?thesis
      proof (cases "is_rate_limit msg")
        case True
        have eq: "single_fetch V t ysym pause max_retries attempt_i st =
              (case backoff pause attempt_i ?st1 of
                 Inl err \<Rightarrow> Inl err
               | Inr st2 \<Rightarrow> single_fetch V t ysym pause max_retries (attempt_i + 1) st2)"
          using go Raises True by (subst single_fetch.simps) simp
        show ?thesis
        proof (cases "backoff pause attempt_i ?st1")
          case (Inl err)
          then show ?thesis using eq "1.prems" by simp
        next
          case (Inr st2)
          have run: "single_fetch V t ysym pause max_retries (attempt_i + 1) st2 = Inr st'"
            using eq Inr "1.prems" by simp
          have "keys_within T (results st2)"
            using backoff_Inr [OF Inr] "1.prems"(2) by simp
          from "1.IH" [OF go Raises True Inr run this "1.prems"(3)] show ?thesis .
        qed
      next
        case False
        then have "single_fetch V t ysym pause max_retries attempt_i st = Inr ?st1"
          using go Raises by (subst single_fetch.simps) simp
        then show ?thesis using "1.prems" by auto
      qed
    qed
  qed
qed

lemma fallback_all_keys:
  "fallback_all V ts pause max_retries st = Inr st' \<Longrightarrow>
   keys_within T (results st) \<Longrightarrow> set ts \<subseteq> T \<Longrightarrow> keys_within T (results st')"
proof (induction ts arbitrary: st)
  case Nil
  then show ?case by simp
next
  case (Cons t ts)
  from Cons.prems(1) obtain st1 st2 where
    s1: "single_fetch V t (to_yahoo_symbol t) pause max_retries 0 st = Inr st1"
    and s2: "throttle (1 / 10) st1 = Inr st2"
    and s3: "fallback_all V ts pause max_retries st2 = Inr st'"
    by (auto split: sum.splits)
  have "keys_within T (results st1)"
    using single_fetch_keys [OF s1] Cons.prems by simp
  then have "keys_within T (results st2)" using throttle_Inr [OF s2] by simp
  then show ?case using Cons.IH [OF s3] Cons.prems by simp
qed

lemma process_batch_keys:
  assumes "process_batch V batch pause max_retries st = Inr st'"
    and "keys_within T (results st)" "set batch \<subseteq> T"
  shows "keys_within T (results st')"
proof -
  from assms(1) obtain df st1 res st2 where
    b: "batch_fetch V (map to_yahoo_symbol batch) pause max_retries 0 st = Inr (df, st1)"
    and rb: "record_batch df batch (map to_yahoo_symbol batch) (results st1) = Inr res"
    and fb: "fallback_all V (filter (\<lambda>t. t \<notin> fst ` set res) batch) pause max_retries
               (st1\<lparr>results := res\<rparr>) = Inr st2"
    and th: "throttle pause st2 = Inr st'"
    by (auto simp add: process_batch_def Let_def split: sum.splits prod.splits)
  have r1: "results st1 = results st" using batch_fetch_results [OF b] .
  have "keys_within T res" using record_batch_keys [OF rb] assms(2,3) r1 by simp
  then have "keys_within T (results st2)"
    using fallback_all_keys [OF fb, of T] assms(3) by auto
  then show ?thesis using throttle_Inr [OF th] by simp
qed

lemma run_batches_keys:
  "run_batches V batches pause max_retries st = Inr st' \<Longrightarrow> keys_within T (results st) \<Longrightarrow>
   \<forall>b \<in> set batches. set b \<subseteq> T \<Longrightarrow> keys_within T (results st')"
proof (induction batches arbitrary: st)
  case Nil
  then show ?case by simp
next
  case (Cons b batches)
  then show ?case
    by (auto split: sum.splits dest: process_batch_keys [where T = T])
qed

lemma earliest_vendor_dates_keys:
  assumes "earliest_vendor_dates V entries batch_size pause max_retries st = Inr (table, st')"
  shows "distinct (map fst table)
         \<and> fst ` set table \<subseteq> {py_upper (py_strip s) | s. PyStr s \<in> set entries \<and> s \<noteq> []}"
proof -
  from assms obtain ts where ts: "normalize_tickers entries = Inr ts"
    by (auto simp add: earliest_vendor_dates_def split: sum.splits)
  let ?bs = "map (\<lambda>i. take (nat batch_size) (drop i ts)) (py_range 0 (length ts) (nat batch_size))"
  have run: "run_batches V ?bs pause max_retries (st\<lparr>results := []\<rparr>) = Inr st'"
    and t: "table = results st'"
    using assms ts by (auto simp add: earliest_vendor_dates_def split: if_splits sum.splits)
  have "\<forall>b \<in> set ?bs. set b \<subseteq> set ts"
    by (auto dest!: in_set_takeD in_set_dropD)
  then have "keys_within (set ts) (results st')"
    using run_batches_keys [OF run, of "set ts"] by simp
  then show ?thesis using normalize_tickers_Inr [OF ts] by (simp add: t keys_within_def)
qed

section \<open>The resolver returns a table\<close>

text \<open>
  With fewer than 1024 retries and a longest wait within \<open>max_wait\<close>, no backoff raises, and
  the retry loops end without an exception.
\<close>

lemma backoff_total:
  assumes "max_retries < 1024" "pause * 2 ^ nat max_retries \<le> max_wait" "int attempt \<le> max_retries"
  shows "\<exists>st'. backoff pause attempt st = Inr st'"
proof -
  have a: "attempt < 1024" using assms(1,3) by simp
  have "attempt \<le> nat max_retries" using assms(3) by simp
  then have "pause * 2 ^ attempt \<le> max_wait" using waits_within [OF assms(2)] by simp
  then show ?thesis using backoff_ok [OF a] by simp
qed

lemma pause_within:
  assumes "pause * 2 ^ nat max_retries \<le> max_wait"
  shows "pause \<le> max_wait"
  using waits_within [OF assms, of 0] by simp

lemma batch_fetch_total:
  "max_retries < 1024 \<Longrightarrow> pause * 2 ^ nat max_retries \<le> max_wait \<Longrightarrow>
   \<exists>r. batch_fetch V ybatch pause max_retries attempt st = Inr r"
proof (induction V ybatch pause max_retries attempt st rule: batch_fetch.induct)
  case (1 V ybatch pause max_retries attempt st)
  let ?st1 = "st\<lparr>calls := calls st + 1\<rparr>"
  show ?case
  proof (cases "int attempt \<le> max_retries")
    case False
    then show ?thesis by (subst batch_fetch.simps) simp
  next
    case le: True
    show ?thesis
    proof (cases "download_batch V (calls st) ybatch")
      case (Returns df)
      then show ?thesis using le by (subst batch_fetch.simps) simp
    next
      case (Raises msg)
      show ?thesis
      proof (cases "is_rate_limit msg")
        case True
        obtain st2 where bo: "backoff pause attempt ?st1 = Inr st2"
          using backoff_total [OF "1.prems" le] by blast
        have "batch_fetch V ybatch pause max_retries attempt st =
              batch_fetch V ybatch pause max_retries (attempt + 1) st2"
          using le Raises True by (subst batch_fetch.simps) (use bo in simp)
        then show ?thesis using "1.IH" [OF le Raises True bo "1.prems"] by simp
      next
        case False
        then show ?thesis using le Raises by (subst batch_fetch.simps) simp
      qed
    qed
  qed
qed

lemma single_fetch_total:
  "max_retries < 1024 \<Longrightarrow> pause * 2 ^ nat max_retries \<le> max_wait \<Longrightarrow>
   \<exists>st'. single_fetch V t ysym pause max_retries attempt_i st = Inr st'"
proof (induction V t ysym pause max_retries attempt_i st rule: single_fetch.induct)
  case (1 V t ysym pause max_retries attempt_i st)
  let ?st1 = "st\<lparr>calls := calls st + 1\<rparr>"
  show ?case
  proof (cases "int attempt_i \<le> max_retries \<and> t \<notin> fst ` set (results st)")
    case False
    then show ?thesis by (subst single_fetch.simps) auto
  next
    case go: True
    show ?thesis
    proof (cases "download_single V (calls st) ysym")
      case (Returns close)
      then show ?thesis using go by (subst single_fetch.simps) (simp split: option.splits)
    next
      case (Raises msg)
      show ?thesis
      proof (cases "is_rate_limit msg")
        case True
        have le: "int attempt_i \<le> max_retries" using go by simp
        obtain st2 where bo: "backoff pause attempt_i ?st1 = Inr st2"
          using backoff_total [OF "1.prems" le] by blast
        have "single_fetch V t ysym pause max_retries attempt_i st =
              single_fetch V t ysym pause max_retries (attempt_i + 1) st2"
          using go Raises True by (subst single_fetch.simps) (use bo in simp)
        then show ?thesis using "1.IH" [OF go Raises True bo "1.prems"] by simp
      next
        case False
        then show ?thesis using go Raises by (subst single_fetch.simps) simp
      qed
    qed
  qed
qed

lemma fallback_all_total:
  assumes "max_retries < 1024" "pause * 2 ^ nat max_retries \<le> max_wait"
  shows "\<exists>st'. fallback_all V ts pause max_retries st = Inr st'"
proof (induction ts arbitrary: st)
  case Nil
  then show ?case by simp
next
  case (Cons t ts)
  obtain st1 where s1: "single_fetch V t (to_yahoo_symbol t) pause max_retries 0 st = Inr st1"
    using single_fetch_total [OF assms] by blast
  have "(1 / 10 :: rat) \<le> max_wait" by (simp add: max_wait_def)
  then obtain st2 where s2: "throttle (1 / 10) st1 = Inr st2"
    using throttle_ok [of "1 / 10" st1] by simp
  show ?case using Cons.IH [of st2] s1 s2 by simp
qed

lemma record_batch_error:
  "record_batch df batch ybatch res = Inl err \<Longrightarrow> df = Some (FlatFrame None)"
  by (auto simp add: record_batch_def split: option.splits batch_frame.splits if_splits)

lemma process_batch_total:
  assumes "\<forall>n yb. download_batch V n yb \<noteq> Returns (FlatFrame None)"
    and "max_retries < 1024" "pause * 2 ^ nat max_retries \<le> max_wait"
  shows "\<exists>st'. process_batch V batch pause max_retries st = Inr st'"
proof -
  obtain df st1 where b: "batch_fetch V (map to_yahoo_symbol batch) pause max_retries 0 st = Inr (df, st1)"
    using batch_fetch_total [OF assms(2,3), of V "map to_yahoo_symbol batch" 0 st] by auto
  have "df \<noteq> Some (FlatFrame None)"
    using batch_fetch_frame [of V _ pause max_retries 0 st "FlatFrame None" st1] b assms(1) by auto
  then obtain res where rb: "record_batch df batch (map to_yahoo_symbol batch) (results st1) = Inr res"
    using record_batch_error [of df batch _ "results st1"]
    by (cases "record_batch df batch (map to_yahoo_symbol batch) (results st1)") auto
  obtain st2 where fb: "fallback_all V (filter (\<lambda>t. t \<notin> fst ` set res) batch) pause max_retries
                          (st1\<lparr>results := res\<rparr>) = Inr st2"
    using fallback_all_total [OF assms(2,3)] by blast
  obtain st3 where th: "throttle pause st2 = Inr st3"
    using throttle_ok [OF pause_within [OF assms(3)], of st2] by simp
  show ?thesis using b rb fb th by (simp add: process_batch_def)
qed

lemma run_batches_total:
  assumes "\<forall>n yb. download_batch V n yb \<noteq> Returns (FlatFrame None)"
    and "max_retries < 1024" "pause * 2 ^ nat max_retries \<le> max_wait"
  shows "\<exists>st'. run_batches V batches pause max_retries st = Inr st'"
proof (induction batches arbitrary: st)
  case Nil
  then show ?case by simp
next
  case (Cons b batches)
  obtain st1 where "process_batch V b pause max_retries st = Inr st1"
    using process_batch_total [OF assms] by blast
  then show ?case using Cons.IH [of st1] by simp
qed

lemma earliest_vendor_dates_total:
  assumes "PyNA \<notin> set entries" "batch_size \<noteq> 0"
    and "\<forall>n yb. download_batch V n yb \<noteq> Returns (FlatFrame None)"
    and "max_retries < 1024" "pause * 2 ^ nat max_retries \<le> max_wait"
  shows "\<exists>table st'. earliest_vendor_dates V entries batch_size pause max_retries st = Inr (table, st')"
proof -
  obtain ts where ts: "normalize_tickers entries = Inr ts"
    using normalize_tickers_strings [OF assms(1)] by blast
  obtain st' where "run_batches V
      (map (\<lambda>i. take (nat batch_size) (drop i ts)) (py_range 0 (length ts) (nat batch_size)))
      pause max_retries (st\<lparr>results := []\<rparr>) = Inr st'"
    using run_batches_total [OF assms(3,4,5)] by blast
  then show ?thesis using assms(2) ts by (simp add: earliest_vendor_dates_def)
qed

lemma earliest_vendor_dates_NA:
  "PyNA \<in> set entries \<Longrightarrow>
   earliest_vendor_dates V entries batch_size pause max_retries st = Inl (TypeError, st)"
  by (simp add: earliest_vendor_dates_def normalize_tickers_NA)

text \<open>
  Claim C10 says that every input has its entries that are not strings dropped silently, and
  that no input produces an error. In the first run the second entry is an object whose truth
  test raises, as \<open>pd.NA\<close> does: the filter tests the truth value of an entry before its
  type, and the resolver raises \<open>TypeError\<close> before any download. In the second run the
  input is one padded, lower-case string, the pause is \<open>1e10\<close> seconds and the vendor is
  rate limited: the first backoff raises \<open>OverflowError\<close>.
\<close>

theorem truth_test_of_entry_raises:
  "normalize_tickers [PyStr ''AAPL'', PyNA] = Inl TypeError
   \<and> earliest_vendor_dates vendor_no_data [PyStr ''AAPL'', PyNA] 50 1 3 initial_state =
       Inl (TypeError, initial_state)
   \<and> earliest_vendor_dates vendor_always_limited [PyStr '' aapl ''] 50 10000000000 3 initial_state =
       Inl (OverflowError, \<lparr>calls = 1, sleeps = [], results = []\<rparr>)"
proof -
  have a: "normalize_tickers [PyStr ''AAPL'', PyNA] = Inl TypeError" by code_simp
  have b: "earliest_vendor_dates vendor_no_data [PyStr ''AAPL'', PyNA] 50 1 3 initial_state =
       Inl (TypeError, initial_state)"
    by code_simp
  have c: "earliest_vendor_dates vendor_always_limited [PyStr '' aapl ''] 50 10000000000 3 initial_state =
       Inl (OverflowError, \<lparr>calls = 1, sleeps = [], results = []\<rparr>)"
    by code_simp
  show ?thesis using a b c by simp
qed

text \<open>
  Claim C10, amended. On an input without an entry whose truth test raises, the resolver keeps
  the non-empty strings, strips and uppercases them, and keeps the first occurrence of each
  in order; an entry whose truth test raises makes it raise \<open>TypeError\<close>. The cleaned list
  has no duplicates. The returned table has one row per symbol, and every symbol in it is the
  stripped, uppercased form of a non-empty input string. On an input without an entry whose
  truth test raises the resolver returns a table whenever the batch size is not zero, no batch
  download returns a frame of plain columns without a close column, there are fewer than 1024
  retries, and the longest wait \<open>pause * 2 ^ max_retries\<close> is at most \<open>max_wait\<close> seconds.
\<close>

theorem resolver_normalizes_input:
  "(PyNA \<notin> set entries \<longrightarrow>
      normalize_tickers entries =
      Inr (rev (remdups (rev [py_upper (py_strip s). PyStr s \<leftarrow> entries, s \<noteq> []]))))
   \<and> (PyNA \<in> set entries \<longrightarrow>
        earliest_vendor_dates V entries batch_size pause max_retries st = Inl (TypeError, st))
   \<and> (normalize_tickers entries = Inr ts \<longrightarrow>
        distinct ts \<and> set ts = {py_upper (py_strip s) | s. PyStr s \<in> set entries \<and> s \<noteq> []})
   \<and> (earliest_vendor_dates V entries batch_size pause max_retries st = Inr (table, st') \<longrightarrow>
        distinct (map fst table)
        \<and> (\<forall>sym \<in> fst ` set table. \<exists>s. PyStr s \<in> set entries \<and> s \<noteq> [] \<and> sym = py_upper (py_strip s)))
   \<and> (PyNA \<notin> set entries \<and> batch_size \<noteq> 0
        \<and> (\<forall>n yb. download_batch V n yb \<noteq> Returns (FlatFrame None))
        \<and> max_retries < 1024 \<and> pause * 2 ^ nat max_retries \<le> max_wait \<longrightarrow>
        (\<exists>table st'. earliest_vendor_dates V entries batch_size pause max_retries st = Inr (table, st')))"
proof -
  have a: "PyNA \<notin> set entries \<longrightarrow>
      normalize_tickers entries =
      Inr (rev (remdups (rev [py_upper (py_strip s). PyStr s \<leftarrow> entries, s \<noteq> []])))"
    using normalize_tickers_strings [of entries] by blast
  have b: "PyNA \<in> set entries \<longrightarrow>
        earliest_vendor_dates V entries batch_size pause max_retries st = Inl (TypeError, st)"
    using earliest_vendor_dates_NA [of entries V batch_size pause max_retries st] by blast
  have c: "normalize_tickers entries = Inr ts \<longrightarrow>
        distinct ts \<and> set ts = {py_upper (py_strip s) | s. PyStr s \<in> set entries \<and> s \<noteq> []}"
    using normalize_tickers_Inr [of entries ts] by blast
  have d: "distinct (map fst table)
        \<and> (\<forall>sym \<in> fst ` set table. \<exists>s. PyStr s \<in> set entries \<and> s \<noteq> [] \<and> sym = py_upper (py_strip s))"
    if "earliest_vendor_dates V entries batch_size pause max_retries st = Inr (table, st')"
    using earliest_vendor_dates_keys [OF that] by auto
  have e: "PyNA \<notin> set entries \<and> batch_size \<noteq> 0
        \<and> (\<forall>n yb. download_batch V n yb \<noteq> Returns (FlatFrame None))
        \<and> max_retries < 1024 \<and> pause * 2 ^ nat max_retries \<le> max_wait \<longrightarrow>
        (\<exists>table st'. earliest_vendor_dates V entries batch_size pause max_retries st = Inr (table, st'))"
    using earliest_vendor_dates_total [of entries batch_size V max_retries pause st] by blast
  show ?thesis using a b c d e by blast
qed

lemma example_run:
  "earliest_vendor_dates vendor_limited_twice example_entries 50 1 3 initial_state =
   Inr ([(''AAPL'', (2000, 1, 1))],
        \<lparr>calls = 4, sleeps = [1, 2, 1 / 10, 1], results = [(''AAPL'', (2000, 1, 1))]\<rparr>)"
  by code_simp

lemma example_tickers: "normalize_tickers example_entries = Inr [''AAPL'', ''BRK.B'']"
  by code_simp

theorem resolver_normalizes_input_witness:
  "PyNA \<notin> set example_entries
   \<and> normalize_tickers example_entries = Inr [''AAPL'', ''BRK.B'']
   \<and> rev (remdups (rev [py_upper (py_strip s). PyStr s \<leftarrow> example_entries, s \<noteq> []])) =
       [''AAPL'', ''BRK.B'']
   \<and> distinct [''AAPL'', ''BRK.B'']
   \<and> PyNA \<in> set [PyStr ''AAPL'', PyNA]
   \<and> earliest_vendor_dates vendor_no_data [PyStr ''AAPL'', PyNA] 50 1 3 initial_state =
       Inl (TypeError, initial_state)
   \<and> earliest_vendor_dates vendor_limited_twice example_entries 50 1 3 initial_state =
       Inr ([(''AAPL'', (2000, 1, 1))],
            \<lparr>calls = 4, sleeps = [1, 2, 1 / 10, 1], results = [(''AAPL'', (2000, 1, 1))]\<rparr>)
   \<and> (50::int) \<noteq> 0
   \<and> (\<forall>n yb. download_batch vendor_limited_twice n yb \<noteq> Returns (FlatFrame None))
   \<and> (3::int) < 1024
   \<and> (1::rat) * 2 ^ nat 3 \<le> max_wait
   \<and> distinct (map fst [(''AAPL'', (2000, 1, 1 :: nat))])
   \<and> PyStr '' aapl'' \<in> set example_entries
   \<and> ''AAPL'' = py_upper (py_strip '' aapl'')"
proof -
  have na: "PyNA \<notin> set example_entries" by (simp add: example_entries_def)
  have na2: "PyNA \<in> set [PyStr ''AAPL'', PyNA]" by simp
  have v: "\<forall>n yb. download_batch vendor_limited_twice n yb \<noteq> Returns (FlatFrame None)"
    by (simp add: vendor_limited_twice_def aapl_frame_def)
  have m: "(3::int) < 1024" by simp
  have w: "(1::rat) * 2 ^ nat 3 \<le> max_wait" by (simp add: max_wait_def)
  have e: "PyStr '' aapl'' \<in> set example_entries" by (simp add: example_entries_def)
  have n: "''AAPL'' = py_upper (py_strip '' aapl'')" by code_simp
  have r: "earliest_vendor_dates vendor_no_data [PyStr ''AAPL'', PyNA] 50 1 3 initial_state =
       Inl (TypeError, initial_state)"
    using resolver_normalizes_input [of "[PyStr ''AAPL'', PyNA]" vendor_no_data 50 1 3 initial_state]
      na2 by blast
  have k: "rev (remdups (rev [py_upper (py_strip s). PyStr s \<leftarrow> example_entries, s \<noteq> []])) =
       [''AAPL'', ''BRK.B'']"
    using resolver_normalizes_input [of example_entries vendor_limited_twice 50 1 3 initial_state]
      na example_tickers by simp
  have d: "distinct [''AAPL'', ''BRK.B''] \<and> distinct (map fst [(''AAPL'', (2000, 1, 1 :: nat))])"
    using resolver_normalizes_input [of example_entries vendor_limited_twice 50 1 3 initial_state
        "[''AAPL'', ''BRK.B'']" "[(''AAPL'', (2000, 1, 1))]"
        "\<lparr>calls = 4, sleeps = [1, 2, 1 / 10, 1], results = [(''AAPL'', (2000, 1, 1))]\<rparr>"]
      example_run example_tickers
    by simp
  show ?thesis
    using na na2 v m w e n r k d example_run example_tickers by simp
qed

section \<open>The cached run\<close>

lemma normalize_input_fixed:
  "t \<in> set (normalize_input tickers) \<Longrightarrow> py_upper (py_strip t) = t"
  by (auto simp add: normalize_input_def upper_strip_idem)

lemma normalize_input_upper:
  "t \<in> set (normalize_input tickers) \<Longrightarrow> py_upper t = t"
  by (auto simp add: normalize_input_def py_upper_idem)

lemma set_to_fetch_of:
  "set (to_fetch_of ts cached force) = {t \<in> set ts. force \<or> t \<notin> fst ` set cached}"
  by (auto simp add: to_fetch_of_def)

lemma load_rows_keys:
  "distinct (map fst cached) \<Longrightarrow> distinct (map fst (load_rows rows cached))"
  by (induction rows cached rule: load_rows.induct) (auto split: date_text.splits simp add: distinct_update)

lemma distinct_load_cache: "distinct (map fst (load_cache f))"
  by (auto simp add: load_cache_def load_rows_keys split: option.splits)

lemma distinct_cached_of: "distinct (map fst (cached_of cache_path fs force))"
  by (auto simp add: cached_of_def distinct_load_cache split: option.splits)

lemma fold_update_cached:
  "distinct (map fst xs) \<Longrightarrow>
   map_of (fold (\<lambda>(s, d) m. AList.update s d m) xs m0) = map_of m0 ++ map_of xs"
proof (induction xs arbitrary: m0)
  case Nil
  then show ?case by simp
next
  case (Cons x xs)
  obtain s d where x: "x = (s, d)" by (cases x)
  have "s \<notin> dom (map_of xs)" using Cons.prems x by (simp add: dom_map_of_conv_image_fst)
  then have swap: "(map_of m0)(s \<mapsto> d) ++ map_of xs = (map_of m0 ++ map_of xs)(s \<mapsto> d)"
    by (simp add: map_add_upd_left)
  have "map_of (fold (\<lambda>(s, d) m. AList.update s d m) (x # xs) m0)
      = map_of (AList.update s d m0) ++ map_of xs"
    using Cons.IH [of "AList.update s d m0"] Cons.prems x by simp
  also have "\<dots> = (map_of m0 ++ map_of xs)(s \<mapsto> d)"
    by (simp only: update_conv' swap)
  also have "\<dots> = map_of m0 ++ map_of (x # xs)"
    by (simp only: x map_of.simps fst_conv snd_conv map_add_upd)
  finally show ?case .
qed

lemma distinct_fold_update:
  "distinct (map fst m0) \<Longrightarrow> distinct (map fst (fold (\<lambda>(s, d) m. AList.update (f s) d m) xs m0))"
  by (induction xs arbitrary: m0) (auto simp add: distinct_update)

lemma fold_update_other:
  "S \<notin> f ` fst ` set xs \<Longrightarrow>
   map_of (fold (\<lambda>(s, d) m. AList.update (f s) d m) xs m0) S = map_of m0 S"
  by (induction xs arbitrary: m0) (auto simp add: update_conv')

lemma fold_update_dom:
  "fst ` set (fold (\<lambda>(s, d) m. AList.update (f s) d m) xs m0) = fst ` set m0 \<union> f ` fst ` set xs"
proof (induction xs arbitrary: m0)
  case Nil
  then show ?case by simp
next
  case (Cons x xs)
  obtain s d where x: "x = (s, d)" by (cases x)
  have "fst ` set (fold (\<lambda>(s, d) m. AList.update (f s) d m) (x # xs) m0)
      = fst ` set (AList.update (f s) d m0) \<union> f ` fst ` set xs"
    using Cons.IH [of "AList.update (f s) d m0"] x by simp
  also have "\<dots> = fst ` set m0 \<union> f ` fst ` set (x # xs)"
    unfolding dom_update x by auto
  finally show ?case .
qed

lemma distinct_merge_fetched: "distinct (map fst (merge_fetched cached fetched))"
  unfolding merge_fetched_def
  using distinct_fold_update [of "[]" "\<lambda>s. s" cached]
  by (intro distinct_fold_update) simp

lemma merge_fetched_other:
  assumes "distinct (map fst cached)" "S \<notin> py_upper ` fst ` set fetched"
  shows "map_of (merge_fetched cached fetched) S = map_of cached S"
  unfolding merge_fetched_def
  by (simp add: fold_update_other [OF assms(2)] fold_update_cached [OF assms(1)])

lemma merge_fetched_dom:
  assumes "distinct (map fst cached)"
  shows "fst ` set (merge_fetched cached fetched) = fst ` set cached \<union> py_upper ` fst ` set fetched"
proof -
  have "fst ` set (fold (\<lambda>(s, d) m. AList.update s d m) cached []) = fst ` set cached"
    using fold_update_dom [of "\<lambda>s. s" cached "[]"] by simp
  then show ?thesis unfolding merge_fetched_def by (simp add: fold_update_dom)
qed

lemma map_of_sort:
  assumes "distinct (map fst xs)"
  shows "map_of (sort xs) = map_of xs"
proof -
  have "distinct (map fst (sort xs))" using assms by (simp add: distinct_map)
  then show ?thesis using assms by (simp add: map_of_inject_set)
qed

lemma map_of_filter_keys:
  "map_of (filter (\<lambda>r. fst r \<in> T) xs) S = (if S \<in> T then map_of xs S else None)"
  by (induction xs) auto

lemma fetched_keys:
  assumes "set to_fetch \<subseteq> set (normalize_input tickers)"
    and "(if to_fetch = [] then Inr ([], st)
          else earliest_vendor_dates V (map PyStr to_fetch) batch_size pause max_retries st)
         = Inr (fetched, st')"
  shows "py_upper ` fst ` set fetched \<subseteq> set to_fetch"
proof (cases "to_fetch = []")
  case True
  then show ?thesis using assms(2) by simp
next
  case False
  then have "earliest_vendor_dates V (map PyStr to_fetch) batch_size pause max_retries st
             = Inr (fetched, st')"
    using assms(2) by simp
  then have "fst ` set fetched \<subseteq>
             {py_upper (py_strip s) | s. PyStr s \<in> set (map PyStr to_fetch) \<and> s \<noteq> []}"
    using earliest_vendor_dates_keys by blast
  also have "\<dots> = {py_upper (py_strip s) | s. s \<in> set to_fetch \<and> s \<noteq> []}"
    by auto
  also have "\<dots> \<subseteq> set to_fetch"
  proof
    fix x assume "x \<in> {py_upper (py_strip s) | s. s \<in> set to_fetch \<and> s \<noteq> []}"
    then obtain s where s: "s \<in> set to_fetch" "x = py_upper (py_strip s)" by blast
    then have "s \<in> set (normalize_input tickers)" using assms(1) by blast
    then have "x = s" using s(2) by (simp add: normalize_input_fixed)
    then show "x \<in> set to_fetch" using s(1) by simp
  qed
  finally have k: "fst ` set fetched \<subseteq> set to_fetch" .
  show ?thesis
  proof
    fix x assume "x \<in> py_upper ` fst ` set fetched"
    then obtain s where s: "s \<in> fst ` set fetched" "x = py_upper s" by blast
    then have "s \<in> set (normalize_input tickers)" using k assms(1) by blast
    then have "x = s" using s(2) by (simp add: normalize_input_upper)
    then show "x \<in> set to_fetch" using s(1) k by blast
  qed
qed

lemma with_cache_result:
  assumes "earliest_vendor_dates_with_cache V tickers cache_path batch_size pause max_retries
             force_recheck fs st = Inr (table, fs', st')"
  obtains fetched where
    "(if resolver_input tickers cache_path fs force_recheck = [] then Inr ([], st)
      else earliest_vendor_dates V (map PyStr (resolver_input tickers cache_path fs force_recheck))
             batch_size pause max_retries st) = Inr (fetched, st')"
    "table = filter (\<lambda>r. fst r \<in> set (normalize_input tickers))
               (sort (merge_fetched (cached_of cache_path fs force_recheck) fetched))"
    "fs' = (case cache_path of None \<Rightarrow> fs
            | Some p \<Rightarrow> fs(p \<mapsto> to_csv (sort (merge_fetched (cached_of cache_path fs force_recheck) fetched))))"
    "py_upper ` fst ` set fetched \<subseteq> set (resolver_input tickers cache_path fs force_recheck)"
proof -
  let ?tf = "resolver_input tickers cache_path fs force_recheck"
  let ?run = "if ?tf = [] then Inr ([], st)
      else earliest_vendor_dates V (map PyStr ?tf) batch_size pause max_retries st"
  have unfold: "earliest_vendor_dates_with_cache V tickers cache_path batch_size pause max_retries
             force_recheck fs st =
        (case ?run of
           Inl err \<Rightarrow> Inl err
         | Inr (fetched, st') \<Rightarrow>
             Inr (filter (\<lambda>r. fst r \<in> set (normalize_input tickers))
                    (sort (merge_fetched (cached_of cache_path fs force_recheck) fetched)),
                  (case cache_path of None \<Rightarrow> fs
                   | Some p \<Rightarrow> fs(p \<mapsto> to_csv (sort (merge_fetched (cached_of cache_path fs force_recheck) fetched)))),
                  st'))"
    unfolding earliest_vendor_dates_with_cache_def resolver_input_def Let_def ..
  obtain fetched st2 where f2: "?run = Inr (fetched, st2)"
    using assms unfolding unfold by (cases ?run) auto
  have f: "?run = Inr (fetched, st')"
    and t: "table = filter (\<lambda>r. fst r \<in> set (normalize_input tickers))
               (sort (merge_fetched (cached_of cache_path fs force_recheck) fetched))"
    and w: "fs' = (case cache_path of None \<Rightarrow> fs
            | Some p \<Rightarrow> fs(p \<mapsto> to_csv (sort (merge_fetched (cached_of cache_path fs force_recheck) fetched))))"
    using assms unfolding unfold f2 by simp_all
  have "set ?tf \<subseteq> set (normalize_input tickers)"
    by (auto simp add: resolver_input_def set_to_fetch_of)
  from fetched_keys [OF this f] have "py_upper ` fst ` set fetched \<subseteq> set ?tf" .
  with f t w show ?thesis using that by blast
qed

text \<open>
  Claim C3. Without \<open>force_recheck\<close>, a symbol of the loaded cache that is among the input
  tickers is not handed to the resolver, and the returned table holds it with exactly its
  cached date. A returned symbol that was not handed to the resolver has its cached date: only
  fetched symbols may carry another value.
\<close>

theorem cached_dates_preserved:
  assumes "earliest_vendor_dates_with_cache V tickers cache_path batch_size pause max_retries
             False fs st = Inr (table, fs', st')"
    and "map_of (cached_of cache_path fs False) S = Some d"
    and "S \<in> set (normalize_input tickers)"
  shows "S \<notin> set (resolver_input tickers cache_path fs False)
       \<and> map_of table S = Some d
       \<and> (\<forall>S' d'. map_of table S' = Some d' \<and> S' \<notin> set (resolver_input tickers cache_path fs False)
            \<longrightarrow> map_of (cached_of cache_path fs False) S' = Some d')"
proof -
  let ?cached = "cached_of cache_path fs False"
  let ?tf = "resolver_input tickers cache_path fs False"
  from assms(1) obtain fetched where
    "(if ?tf = [] then Inr ([], st)
      else earliest_vendor_dates V (map PyStr ?tf) batch_size pause max_retries st) = Inr (fetched, st')"
    and t: "table = filter (\<lambda>r. fst r \<in> set (normalize_input tickers)) (sort (merge_fetched ?cached fetched))"
    and "fs' = (case cache_path of None \<Rightarrow> fs
            | Some p \<Rightarrow> fs(p \<mapsto> to_csv (sort (merge_fetched ?cached fetched))))"
    and k: "py_upper ` fst ` set fetched \<subseteq> set ?tf"
    by (rule with_cache_result)
  have look: "map_of table X = (if X \<in> set (normalize_input tickers)
                                 then map_of (merge_fetched ?cached fetched) X else None)" for X
    unfolding t by (simp add: map_of_filter_keys map_of_sort distinct_merge_fetched)
  have keep: "map_of (merge_fetched ?cached fetched) X = map_of ?cached X" if "X \<notin> set ?tf" for X
    using that k by (intro merge_fetched_other distinct_cached_of) blast
  have "(S, d) \<in> set ?cached" using assms(2) by (rule map_of_SomeD)
  then have "S \<in> fst ` set ?cached" by force
  then have a: "S \<notin> set ?tf" by (simp add: resolver_input_def set_to_fetch_of)
  have b: "map_of table S = Some d" using look [of S] keep [OF a] assms(2,3) by simp
  have c: "map_of ?cached S' = Some d'" if "map_of table S' = Some d'" "S' \<notin> set ?tf" for S' d'
    using that look [of S'] keep [of S'] by (simp split: if_splits)
  show ?thesis using a b c by blast
qed

lemma example_cached:
  "cached_of (Some ''cache.csv'') example_fs False = [(''ZZ'', (2001, 1, 1)), (''AAPL'', (2000, 1, 1))]"
  by code_simp

lemma example_input: "normalize_input [''AAPL'', ''msft ''] = [''AAPL'', ''MSFT'']"
  by code_simp

lemma example_fetch:
  "earliest_vendor_dates vendor_no_data [PyStr ''MSFT''] 50 1 3 initial_state =
   Inr ([], \<lparr>calls = 2, sleeps = [1 / 10, 1], results = []\<rparr>)"
  by code_simp

lemma example_sorted:
  "sort (merge_fetched [(''ZZ'', (2001, 1, 1)), (''AAPL'', (2000, 1, 1))] []) =
   [(''AAPL'', (2000, 1, 1)), (''ZZ'', (2001, 1, 1))]"
  by code_simp

lemma example_cached_run:
  "earliest_vendor_dates_with_cache vendor_no_data [''AAPL'', ''msft ''] (Some ''cache.csv'') 50 1 3
     False example_fs initial_state =
   Inr ([(''AAPL'', (2000, 1, 1))],
        example_fs(''cache.csv'' \<mapsto> to_csv [(''AAPL'', (2000, 1, 1)), (''ZZ'', (2001, 1, 1))]),
        \<lparr>calls = 2, sleeps = [1 / 10, 1], results = []\<rparr>)"
  unfolding earliest_vendor_dates_with_cache_def example_cached example_input Let_def
  by (simp add: to_fetch_of_def example_fetch example_sorted del: One_nat_def)

theorem cached_dates_preserved_witness:
  "earliest_vendor_dates_with_cache vendor_no_data [''AAPL'', ''msft ''] (Some ''cache.csv'') 50 1 3
     False example_fs initial_state =
   Inr ([(''AAPL'', (2000, 1, 1))],
        example_fs(''cache.csv'' \<mapsto> to_csv [(''AAPL'', (2000, 1, 1)), (''ZZ'', (2001, 1, 1))]),
        \<lparr>calls = 2, sleeps = [1 / 10, 1], results = []\<rparr>)
   \<and> map_of (cached_of (Some ''cache.csv'') example_fs False) ''AAPL'' = Some (2000, 1, 1)
   \<and> ''AAPL'' \<in> set (normalize_input [''AAPL'', ''msft ''])
   \<and> ''AAPL'' \<notin> set (resolver_input [''AAPL'', ''msft ''] (Some ''cache.csv'') example_fs False)
   \<and> map_of [(''AAPL'', (2000, 1, 1 :: nat))] ''AAPL'' = Some (2000, 1, 1)"
proof -
  have c: "map_of (cached_of (Some ''cache.csv'') example_fs False) ''AAPL'' = Some (2000, 1, 1)"
    unfolding example_cached by simp
  have i: "''AAPL'' \<in> set (normalize_input [''AAPL'', ''msft ''])"
    unfolding example_input by simp
  show ?thesis
    using cached_dates_preserved [OF example_cached_run c i] example_cached_run c i by simp
qed

section \<open>Forced re-fetch\<close>

text \<open>
  Claim C2. With \<open>force_recheck\<close> the list handed to the resolver is the whole normalised
  input, whatever the cache path and the file system are: the cache file is not read, and the
  run is the resolver's run on the full list followed by the rewrite of the cache.
\<close>

theorem force_recheck_fetches_all:
  "resolver_input tickers cache_path fs True = normalize_input tickers
   \<and> set (resolver_input tickers cache_path fs True) =
       {py_upper (py_strip t) | t. t \<in> set tickers \<and> t \<noteq> []}
   \<and> resolver_input tickers cache_path fs True = resolver_input tickers cache_path' fs' True
   \<and> earliest_vendor_dates_with_cache V tickers cache_path batch_size pause max_retries True fs st =
       (case (if normalize_input tickers = [] then Inr ([], st)
              else earliest_vendor_dates V (map PyStr (normalize_input tickers))
                     batch_size pause max_retries st) of
          Inl err \<Rightarrow> Inl err
        | Inr (fetched, st') \<Rightarrow>
            Inr (filter (\<lambda>r. fst r \<in> set (normalize_input tickers)) (sort (merge_fetched [] fetched)),
                 (case cache_path of None \<Rightarrow> fs
                  | Some p \<Rightarrow> fs(p \<mapsto> to_csv (sort (merge_fetched [] fetched)))),
                 st'))"
proof -
  have a: "resolver_input tickers cp f True = normalize_input tickers" for cp f
    by (simp add: resolver_input_def to_fetch_of_def)
  have c: "cached_of cache_path fs True = []"
    by (simp add: cached_of_def split: option.splits)
  have s: "set (normalize_input tickers) = {py_upper (py_strip t) | t. t \<in> set tickers \<and> t \<noteq> []}"
    by (auto simp add: normalize_input_def)
  have t: "to_fetch_of (normalize_input tickers) [] True = normalize_input tickers"
    by (simp add: to_fetch_of_def)
  have r: "earliest_vendor_dates_with_cache V tickers cache_path batch_size pause max_retries True fs st =
       (case (if normalize_input tickers = [] then Inr ([], st)
              else earliest_vendor_dates V (map PyStr (normalize_input tickers))
                     batch_size pause max_retries st) of
          Inl err \<Rightarrow> Inl err
        | Inr (fetched, st') \<Rightarrow>
            Inr (filter (\<lambda>r. fst r \<in> set (normalize_input tickers)) (sort (merge_fetched [] fetched)),
                 (case cache_path of None \<Rightarrow> fs
                  | Some p \<Rightarrow> fs(p \<mapsto> to_csv (sort (merge_fetched [] fetched)))),
                 st'))"
    unfolding earliest_vendor_dates_with_cache_def c t Let_def ..
  show ?thesis using a [of cache_path fs] a [of cache_path' fs'] s r by simp
qed

text \<open>
  Without \<open>force_recheck\<close> every symbol of the loaded cache is written back, with its cached
  date unless it was handed to the resolver: the rewritten file is the union of the previous
  and the new knowledge.
\<close>

lemma cache_kept_without_force:
  assumes "earliest_vendor_dates_with_cache V tickers (Some p) batch_size pause max_retries
             False fs st = Inr (table, fs', st')"
    and "map_of (cached_of (Some p) fs False) S = Some d"
  shows "\<exists>rows d'. fs' p = Some (to_csv rows) \<and> map_of rows S = Some d'
           \<and> (S \<notin> set (resolver_input tickers (Some p) fs False) \<longrightarrow> d' = d)"
proof -
  let ?cached = "cached_of (Some p) fs False"
  let ?tf = "resolver_input tickers (Some p) fs False"
  from assms(1) obtain fetched where
    "(if ?tf = [] then Inr ([], st)
      else earliest_vendor_dates V (map PyStr ?tf) batch_size pause max_retries st) = Inr (fetched, st')"
    and "table = filter (\<lambda>r. fst r \<in> set (normalize_input tickers)) (sort (merge_fetched ?cached fetched))"
    and w: "fs' = (case Some p of None \<Rightarrow> fs
            | Some p \<Rightarrow> fs(p \<mapsto> to_csv (sort (merge_fetched ?cached fetched))))"
    and k: "py_upper ` fst ` set fetched \<subseteq> set ?tf"
    by (rule with_cache_result)
  let ?rows = "sort (merge_fetched ?cached fetched)"
  have look: "map_of ?rows = map_of (merge_fetched ?cached fetched)"
    by (simp add: map_of_sort distinct_merge_fetched)
  have "(S, d) \<in> set ?cached" using assms(2) by (rule map_of_SomeD)
  then have "S \<in> fst ` set ?cached" by force
  then have "S \<in> fst ` set (merge_fetched ?cached fetched)"
    by (simp add: merge_fetched_dom distinct_cached_of)
  then obtain d' where d': "map_of (merge_fetched ?cached fetched) S = Some d'"
    by (metis map_of_eq_None_iff not_Some_eq)
  have eq: "S \<notin> set ?tf \<longrightarrow> d' = d"
    using merge_fetched_other [OF distinct_cached_of, of S fetched "Some p" fs False] k d' assms(2)
    by auto
  have "fs' p = Some (to_csv ?rows)" using w by simp
  moreover have "map_of ?rows S = Some d'" using look d' by simp
  ultimately show ?thesis using eq by blast
qed

lemma no_data_fetch:
  "earliest_vendor_dates vendor_no_data [PyStr ''AAPL''] 50 1 3 initial_state =
   Inr ([], \<lparr>calls = 2, sleeps = [1 / 10, 1], results = []\<rparr>)"
  by code_simp

lemma aapl_input: "normalize_input [''AAPL''] = [''AAPL'']"
  by code_simp

lemma sort_merge_nothing: "sort (merge_fetched [] []) = ([] :: date_table)"
  by code_simp

text \<open>
  Claim C1 fails with \<open>force_recheck\<close>. The cache knows \<open>AAPL\<close> since 2000-01-01; the run
  re-fetches \<open>AAPL\<close>, the vendor has no data, and the rewritten cache file has no row at all:
  the cache is not loaded under \<open>force_recheck\<close>, so the write-back holds the fetched rows only.
\<close>

theorem force_recheck_drops_cached:
  "aapl_cache ''cache.csv'' = Some (to_csv [(''AAPL'', (2000, 1, 1))])
   \<and> earliest_vendor_dates_with_cache vendor_no_data [''AAPL''] (Some ''cache.csv'') 50 1 3 True
       aapl_cache initial_state =
     Inr ([], aapl_cache(''cache.csv'' \<mapsto> to_csv []),
          \<lparr>calls = 2, sleeps = [1 / 10, 1], results = []\<rparr>)"
proof -
  have "cached_of (Some ''cache.csv'') aapl_cache True = []"
    by (simp add: cached_of_def aapl_cache_def)
  then have "earliest_vendor_dates_with_cache vendor_no_data [''AAPL''] (Some ''cache.csv'') 50 1 3 True
       aapl_cache initial_state =
     Inr ([], aapl_cache(''cache.csv'' \<mapsto> to_csv []),
          \<lparr>calls = 2, sleeps = [1 / 10, 1], results = []\<rparr>)"
    unfolding earliest_vendor_dates_with_cache_def aapl_input Let_def
    by (simp add: to_fetch_of_def no_data_fetch sort_merge_nothing del: One_nat_def)
  then show ?thesis by (simp add: aapl_cache_def)
qed

section \<open>Loading a damaged cache\<close>

lemma load_rows_no_dates: "load_rows (map (\<lambda>(c, d). (c, NoDate)) rows) cached = cached"
  by (induction rows arbitrary: cached) auto

lemma load_rows_prefix:
  "load_rows rows cached = load_rows (takeWhile (\<lambda>r. snd r \<noteq> BadDate) rows) cached"
  by (induction rows cached rule: load_rows.induct) (auto split: date_text.splits)

lemma dated_keys_Cons:
  "{py_upper (str_of_cell c') | c' d'. (c', DateStr d') \<in> set ((c, d) # rows)} =
   (case d of DateStr x \<Rightarrow> {py_upper (str_of_cell c)} | _ \<Rightarrow> {})
   \<union> {py_upper (str_of_cell c') | c' d'. (c', DateStr d') \<in> set rows}"
  by (cases d) force+

lemma load_rows_dom:
  "\<forall>r \<in> set rows. snd r \<noteq> BadDate \<Longrightarrow>
   fst ` set (load_rows rows cached) =
   fst ` set cached \<union> {py_upper (str_of_cell c) | c d. (c, DateStr d) \<in> set rows}"
proof (induction rows cached rule: load_rows.induct)
  case (1 cached)
  then show ?case by simp
next
  case (2 c d rows cached)
  show ?case
  proof (cases d)
    case NoDate
    then show ?thesis using 2 unfolding dated_keys_Cons by simp
  next
    case (DateStr x)
    have "fst ` set (load_rows rows (AList.update (py_upper (str_of_cell c)) x cached)) =
          fst ` set (AList.update (py_upper (str_of_cell c)) x cached)
          \<union> {py_upper (str_of_cell c) | c d. (c, DateStr d) \<in> set rows}"
      using 2 DateStr by simp
    then show ?thesis using DateStr unfolding dated_keys_Cons by (simp add: dom_update Un_assoc)
  next
    case BadDate
    then show ?thesis using "2.prems" by simp
  qed
qed

lemma takeWhile_parse:
  "takeWhile (\<lambda>r. snd r \<noteq> BadDate) (map (\<lambda>(s, d). (parse_symbol s, d)) rows) =
   map (\<lambda>(s, d). (parse_symbol s, d)) (takeWhile (\<lambda>r. snd r \<noteq> BadDate) rows)"
  by (induction rows) auto

lemma load_cache_prefix:
  "load_cache (Csv True True rows) = load_cache (Csv True True (takeWhile (\<lambda>r. snd r \<noteq> BadDate) rows))"
proof -
  let ?p = "map (\<lambda>(s, d). (parse_symbol s, d))"
  have "load_rows (?p rows) [] = load_rows (takeWhile (\<lambda>r. snd r \<noteq> BadDate) (?p rows)) []"
    by (rule load_rows_prefix)
  then show ?thesis by (simp add: load_cache_def read_csv_def takeWhile_parse)
qed

lemma load_cache_keys:
  "fst ` set (load_cache (Csv True True rows)) =
   {py_upper (str_of_cell (parse_symbol s)) | s d.
      (s, DateStr d) \<in> set (takeWhile (\<lambda>r. snd r \<noteq> BadDate) rows)}"
proof -
  let ?good = "takeWhile (\<lambda>r. snd r \<noteq> BadDate) rows"
  let ?p = "map (\<lambda>(s, d). (parse_symbol s, d))"
  have nb: "\<forall>r \<in> set (?p ?good). snd r \<noteq> BadDate"
    by (auto dest: set_takeWhileD)
  have "fst ` set (load_cache (Csv True True rows)) = fst ` set (load_rows (?p ?good) [])"
    by (subst load_cache_prefix) (simp add: load_cache_def read_csv_def)
  also have "\<dots> = {py_upper (str_of_cell c) | c d. (c, DateStr d) \<in> set (?p ?good)}"
    using load_rows_dom [OF nb, of "[]"] by simp
  also have "\<dots> = {py_upper (str_of_cell (parse_symbol s)) | s d. (s, DateStr d) \<in> set ?good}"
    by force
  finally show ?thesis .
qed

text \<open>
  A file that cannot be read, and a file without the symbol column or without the date column,
  load as the empty map.
\<close>

lemma load_cache_unusable:
  "load_cache Unreadable = []"
  "load_cache (Csv False has_date rows) = []"
  "load_cache (Csv True False rows) = []"
  by (simp_all add: load_cache_def read_csv_def load_rows_no_dates)

text \<open>
  Claim C5 fails on a cache file with a malformed date. The file has a row for \<open>AAPL\<close>, a
  row for \<open>MSFT\<close> with a date that cannot be parsed, and a row for \<open>IBM\<close>. The load stops
  at the second row, and the handler leaves \<open>cached\<close> as the first row has filled it: the
  cache is not treated as empty, and of the three tickers of the file only \<open>MSFT\<close> and
  \<open>IBM\<close> are fetched again.
\<close>

theorem malformed_date_keeps_earlier_rows:
  "corrupt_fs ''cache.csv'' = Some corrupt_cache
   \<and> load_cache corrupt_cache = [(''AAPL'', (2000, 1, 1))]
   \<and> load_cache corrupt_cache \<noteq> []
   \<and> cached_of (Some ''cache.csv'') corrupt_fs False = [(''AAPL'', (2000, 1, 1))]
   \<and> resolver_input [''AAPL'', ''MSFT'', ''IBM''] (Some ''cache.csv'') corrupt_fs False =
       [''MSFT'', ''IBM'']"
proof -
  have f: "corrupt_fs ''cache.csv'' = Some corrupt_cache" by (simp add: corrupt_fs_def)
  have l: "load_cache corrupt_cache = [(''AAPL'', (2000, 1, 1))]" by code_simp
  have c: "cached_of (Some ''cache.csv'') corrupt_fs False = [(''AAPL'', (2000, 1, 1))]"
    by (simp add: cached_of_def f l)
  have n: "normalize_input [''AAPL'', ''MSFT'', ''IBM''] = [''AAPL'', ''MSFT'', ''IBM'']"
    by code_simp
  have r: "resolver_input [''AAPL'', ''MSFT'', ''IBM''] (Some ''cache.csv'') corrupt_fs False =
       [''MSFT'', ''IBM'']"
    by (simp add: resolver_input_def c n to_fetch_of_def)
  show ?thesis using f l c r by simp
qed

section \<open>The validation pass\<close>

lemma sample_size_range:
  assumes "0 < n" "float_gt_zero f" "sample_size n f m = Inr k"
  shows "1 \<le> k \<and> k \<le> int n"
proof -
  obtain p e where fin: "mul_int_float (int n) f = Finite p e"
    using assms(3) by (cases "mul_int_float (int n) f") (auto simp add: sample_size_def math_ceil_def)
  have k: "k = min (max \<lceil>float_value p e\<rceil> m) (int n)"
    using assms(3) fin by (simp add: sample_size_def math_ceil_Finite)
  have "0 < p" using mul_int_float_pos [of "int n" f p e] assms(1,2) fin by simp
  then have "0 < float_value p e" by (rule float_value_pos)
  then have "1 \<le> \<lceil>float_value p e\<rceil>" by (simp add: less_ceiling_iff [symmetric] flip: zless_iff_Suc_zadd)
  then show ?thesis using assms(1) k by linarith
qed

lemma set_map_filter_conv: "set (List.map_filter h xs) = {y. \<exists>x \<in> set xs. h x = Some y}"
  by (induction xs) (auto simp add: List.map_filter_simps split: option.splits)

lemma mismatch_of_Some:
  "mismatch_of s fd r = Some y \<longleftrightarrow> (\<exists>c. r = (s, Some c) \<and> fd \<noteq> c \<and> y = (s, fd, c))"
  by (cases r) (auto simp add: mismatch_of_def split: option.splits)

lemma set_mismatches:
  "set (mismatches fresh vdf) =
   {(py_upper s, fd, cd) | s fd cd. (s, fd) \<in> set fresh \<and> (py_upper s, Some cd) \<in> set vdf \<and> fd \<noteq> cd}"
proof -
  have "set (mismatches fresh vdf) =
        (\<Union>x \<in> set fresh. {y. \<exists>r \<in> set vdf. mismatch_of (py_upper (fst x)) (snd x) r = Some y})"
    by (simp add: mismatches_def set_map_filter_conv split_beta)
  also have "\<dots> = {(py_upper s, fd, cd) | s fd cd.
                      (s, fd) \<in> set fresh \<and> (py_upper s, Some cd) \<in> set vdf \<and> fd \<noteq> cd}"
    unfolding mismatch_of_Some by force
  finally show ?thesis .
qed

lemma validate_cache_runs:
  assumes "fs vp = Some vfile" "\<not> skip_validate" "\<not> force_recheck" "float_gt_zero f"
    and "read_csv vfile = Some (True, True, rows)"
    and "candidates = validation_candidates universe (map normalise_row rows)"
    and "candidates \<noteq> []"
    and "sample_size (length candidates) f m = Inr k"
    and "earliest_vendor_dates V (map PyStr (pick candidates (nat k))) (min batch_size 50)
           pause max_retries st = Inr (fresh, st')"
  shows "validate_cache V pick skip_validate (Some vp) force_recheck f m outp universe batch_size
           pause max_retries fs st =
         (if fresh = [] then fs else fs(outp \<mapsto> Report (mismatches fresh (map normalise_row rows))),
          st')"
proof -
  have "1 \<le> k \<and> k \<le> int (length candidates)"
    using sample_size_range [of "length candidates" f m k] assms(4,7,8) by simp
  then have k: "\<not> (k < 0 \<or> int (length candidates) < k)" by linarith
  show ?thesis
    using assms(1-5,7-9) k unfolding assms(6) validate_cache_def Let_def by simp
qed


lemma validate_cache_reads_only:
  "outp \<noteq> vp \<Longrightarrow>
   fst (validate_cache V pick skip_validate (Some vp) force_recheck f m outp universe batch_size
          pause max_retries fs st) vp = fs vp"
  unfolding validate_cache_def Let_def
  by (auto split: option.splits sum.splits prod.splits)

lemma aapl_cache_file: "aapl_cache ''cache.csv'' = Some (to_csv [(''AAPL'', (2000, 1, 1))])"
  by (simp add: aapl_cache_def)

lemma aapl_cache_rows:
  "read_csv (to_csv [(''AAPL'', (2000, 1, 1))]) = Some (True, True, [(SymText ''AAPL'', DateStr (2000, 1, 1))])"
  by code_simp

lemma aapl_candidates:
  "validation_candidates [SymText ''AAPL''] (map normalise_row [(SymText ''AAPL'', DateStr (2000, 1, 1))])
   = [''AAPL'']"
  by code_simp

lemma aapl_sample_size: "sample_size (length [''AAPL'']) double_0_05 20 = Inr 1"
  by code_simp

lemma aapl_no_data:
  "earliest_vendor_dates vendor_no_data (map PyStr (take_first [''AAPL''] (nat 1))) (min 50 50) 1 3
     initial_state = Inr ([], \<lparr>calls = 2, sleeps = [1 / 10, 1], results = []\<rparr>)"
  by code_simp

lemma aapl_fresh:
  "earliest_vendor_dates vendor_limited_twice (map PyStr (take_first [''AAPL''] (nat 1))) (min 50 50) 1 3
     initial_state =
   Inr ([(''AAPL'', (2000, 1, 1))],
        \<lparr>calls = 3, sleeps = [1, 2, 1], results = [(''AAPL'', (2000, 1, 1))]\<rparr>)"
  by code_simp

lemma aapl_no_mismatch:
  "mismatches [(''AAPL'', (2000, 1, 1))] (map normalise_row [(SymText ''AAPL'', DateStr (2000, 1, 1))]) = []"
  by code_simp

lemma double_0_05_pos: "float_gt_zero double_0_05"
  by (simp add: float_gt_zero_def double_0_05_def)

text \<open>
  Claim C6 says that the report is written whenever the pass runs, also when the fresh
  resolution resolves no symbol. Here the pass runs on one candidate, the vendor has no data,
  and no report file exists afterwards: the report is written under \<open>if not fresh.empty\<close>.
\<close>

theorem no_report_without_fresh_rows:
  "aapl_cache ''cache.csv'' = Some (to_csv [(''AAPL'', (2000, 1, 1))])
   \<and> aapl_cache ''mismatches.csv'' = None
   \<and> validation_candidates [SymText ''AAPL'']
        (map normalise_row [(SymText ''AAPL'', DateStr (2000, 1, 1))]) = [''AAPL'']
   \<and> validate_cache vendor_no_data take_first False (Some ''cache.csv'') False double_0_05 20
        ''mismatches.csv'' [SymText ''AAPL''] 50 1 3 aapl_cache initial_state =
      (aapl_cache, \<lparr>calls = 2, sleeps = [1 / 10, 1], results = []\<rparr>)"
proof -
  have n: "aapl_cache ''mismatches.csv'' = None" by (simp add: aapl_cache_def)
  have "validate_cache vendor_no_data take_first False (Some ''cache.csv'') False double_0_05 20
        ''mismatches.csv'' [SymText ''AAPL''] 50 1 3 aapl_cache initial_state =
      (if ([] :: date_table) = [] then aapl_cache
       else aapl_cache(''mismatches.csv'' \<mapsto> Report (mismatches []
              (map normalise_row [(SymText ''AAPL'', DateStr (2000, 1, 1))]))),
       \<lparr>calls = 2, sleeps = [1 / 10, 1], results = []\<rparr>)"
    using validate_cache_runs [where fs = aapl_cache and vp = "''cache.csv''"
          and vfile = "to_csv [(''AAPL'', (2000, 1, 1))]" and skip_validate = False
          and force_recheck = False and f = double_0_05
          and rows = "[(SymText ''AAPL'', DateStr (2000, 1, 1))]" and candidates = "[''AAPL'']"
          and universe = "[SymText ''AAPL'']" and m = 20 and k = 1 and V = vendor_no_data
          and pick = take_first and batch_size = 50 and pause = 1 and max_retries = 3
          and st = initial_state and fresh = "[]"
          and st' = "\<lparr>calls = 2, sleeps = [1 / 10, 1], results = []\<rparr>"
          and outp = "''mismatches.csv''"]
      aapl_cache_file double_0_05_pos aapl_cache_rows aapl_candidates aapl_sample_size aapl_no_data
    by simp
  then show ?thesis using n aapl_cache_file aapl_candidates by simp
qed

text \<open>
  Claim C6, amended. When the validation pass runs (the cache file exists with both columns,
  validation is not skipped, no \<open>force_recheck\<close>, a positive sample fraction, candidates) and
  the fresh resolution returns at least one row, the mismatch report is written with the
  columns \<open>Symbol\<close>, \<open>FreshDate\<close>, \<open>CachedDate\<close>: one row for every fresh row and cache row of
  the same symbol whose dates differ, so no data row when nothing differs. When the fresh
  resolution returns no row, the file system is left as it was. When the report path is not
  the path of the vendor cache, the pass leaves the vendor cache file as it was.
\<close>

theorem validation_report_written:
  assumes "fs vp = Some vfile" "\<not> skip_validate" "\<not> force_recheck" "float_gt_zero f"
    and "read_csv vfile = Some (True, True, rows)"
    and "candidates = validation_candidates universe (map normalise_row rows)"
    and "candidates \<noteq> []"
    and "sample_size (length candidates) f m = Inr k"
    and "earliest_vendor_dates V (map PyStr (pick candidates (nat k))) (min batch_size 50)
           pause max_retries st = Inr (fresh, st')"
  shows "(fresh \<noteq> [] \<longrightarrow>
            fst (validate_cache V pick skip_validate (Some vp) force_recheck f m outp universe
                   batch_size pause max_retries fs st) outp =
            Some (Report (mismatches fresh (map normalise_row rows))))
       \<and> (fresh = [] \<longrightarrow>
            fst (validate_cache V pick skip_validate (Some vp) force_recheck f m outp universe
                   batch_size pause max_retries fs st) = fs)
       \<and> set (mismatches fresh (map normalise_row rows)) =
           {(py_upper s, fd, cd) | s fd cd.
              (s, fd) \<in> set fresh \<and> (py_upper s, Some cd) \<in> set (map normalise_row rows) \<and> fd \<noteq> cd}
       \<and> (outp \<noteq> vp \<longrightarrow>
            fst (validate_cache V pick skip_validate (Some vp) force_recheck f m outp universe
                   batch_size pause max_retries fs st) vp = fs vp)"
proof -
  have run: "validate_cache V pick skip_validate (Some vp) force_recheck f m outp universe batch_size
           pause max_retries fs st =
         (if fresh = [] then fs else fs(outp \<mapsto> Report (mismatches fresh (map normalise_row rows))),
          st')"
    using assms by (rule validate_cache_runs)
  have a: "fresh \<noteq> [] \<longrightarrow>
            fst (validate_cache V pick skip_validate (Some vp) force_recheck f m outp universe
                   batch_size pause max_retries fs st) outp =
            Some (Report (mismatches fresh (map normalise_row rows)))"
    unfolding run by simp
  have b: "fresh = [] \<longrightarrow>
            fst (validate_cache V pick skip_validate (Some vp) force_recheck f m outp universe
                   batch_size pause max_retries fs st) = fs"
    unfolding run by simp
  show ?thesis
    using a b set_mismatches [of fresh "map normalise_row rows"]
      validate_cache_reads_only [of outp vp V pick skip_validate force_recheck f m universe
        batch_size pause max_retries fs st]
    by blast
qed

theorem validation_report_written_witness:
  "fst (validate_cache vendor_limited_twice take_first False (Some ''cache.csv'') False double_0_05 20
          ''mismatches.csv'' [SymText ''AAPL''] 50 1 3 aapl_cache initial_state) ''mismatches.csv'' =
     Some (Report [])
   \<and> fst (validate_cache vendor_limited_twice take_first False (Some ''cache.csv'') False double_0_05 20
          ''mismatches.csv'' [SymText ''AAPL''] 50 1 3 aapl_cache initial_state) ''cache.csv'' =
     aapl_cache ''cache.csv''
   \<and> fst (validate_cache vendor_no_data take_first False (Some ''cache.csv'') False double_0_05 20
          ''mismatches.csv'' [SymText ''AAPL''] 50 1 3 aapl_cache initial_state) = aapl_cache"
proof -
  have ne: "''mismatches.csv'' \<noteq> ''cache.csv''" by simp
  have c: "[''AAPL''] \<noteq> []" by simp
  have t: "\<not> False" by simp
  have fresh: "[(''AAPL'', (2000, 1, 1 :: nat))] \<noteq> []" by simp
  show ?thesis
    using validation_report_written [where fs = aapl_cache and vp = "''cache.csv''"
          and vfile = "to_csv [(''AAPL'', (2000, 1, 1))]" and skip_validate = False
          and force_recheck = False and f = double_0_05
          and rows = "[(SymText ''AAPL'', DateStr (2000, 1, 1))]" and candidates = "[''AAPL'']"
          and universe = "[SymText ''AAPL'']" and m = 20 and k = 1 and V = vendor_limited_twice
          and pick = take_first and batch_size = 50 and pause = 1 and max_retries = 3
          and st = initial_state and fresh = "[(''AAPL'', (2000, 1, 1))]"
          and st' = "\<lparr>calls = 3, sleeps = [1, 2, 1], results = [(''AAPL'', (2000, 1, 1))]\<rparr>"
          and outp = "''mismatches.csv''"]
      validation_report_written [where fs = aapl_cache and vp = "''cache.csv''"
          and vfile = "to_csv [(''AAPL'', (2000, 1, 1))]" and skip_validate = False
          and force_recheck = False and f = double_0_05
          and rows = "[(SymText ''AAPL'', DateStr (2000, 1, 1))]" and candidates = "[''AAPL'']"
          and universe = "[SymText ''AAPL'']" and m = 20 and k = 1 and V = vendor_no_data
          and pick = take_first and batch_size = 50 and pause = 1 and max_retries = 3
          and st = initial_state and fresh = "[]"
          and st' = "\<lparr>calls = 2, sleeps = [1 / 10, 1], results = []\<rparr>"
          and outp = "''mismatches.csv''"]
      aapl_cache_file double_0_05_pos aapl_cache_rows aapl_candidates aapl_sample_size
      aapl_fresh aapl_no_data aapl_no_mismatch ne
    by simp
qed

end
